theory Spec2Isabelle
  imports Main "HOL-Library.AList" "HOL-Library.Sublist"
begin

section \<open>Exceptions\<close>

text \<open>
  Every exception that the helpers of \<^verbatim>\<open>ochazuke/helpers.py\<close> or the library calls
  they make can raise is a value. A function that may raise returns \<open>error + 'a\<close>,
  with \<open>Inl\<close> for the exception that leaves it.
\<close>

datatype error = ValueError | KeyError | TypeError | OverflowError | JSONDecodeError

section \<open>The calendar of the datetime library\<close>

text \<open>
  \<^verbatim>\<open>datetime.datetime.strptime(s, "%Y-%m-%d")\<close> yields a datetime at midnight, so
  only the three date fields are carried. The arithmetic on them follows the
  library: a date is turned into its proleptic Gregorian ordinal (day 1 is
  0001-01-01), days are added there, and the ordinal is turned back.
\<close>

record datetime =
  year :: int
  month :: int
  day :: int

definition MINYEAR :: int where
  "MINYEAR = 1"

definition MAXYEAR :: int where
  "MAXYEAR = 9999"

definition MAXORDINAL :: int where
  "MAXORDINAL = 3652059"

definition DAYS_IN_MONTH :: "int list" where
  "DAYS_IN_MONTH = [-1, 31, 28, 31, 30, 31, 30, 31, 31, 30, 31, 30, 31]"

definition DAYS_BEFORE_MONTH :: "int list" where
  "DAYS_BEFORE_MONTH = [-1, 0, 31, 59, 90, 120, 151, 181, 212, 243, 273, 304, 334]"

definition is_leap :: "int \<Rightarrow> bool" where
  "is_leap y = (y mod 4 = 0 \<and> (y mod 100 \<noteq> 0 \<or> y mod 400 = 0))"

definition days_before_year :: "int \<Rightarrow> int" where
  "days_before_year y = (let y1 = y - 1 in y1 * 365 + y1 div 4 - y1 div 100 + y1 div 400)"

definition days_in_month :: "int \<Rightarrow> int \<Rightarrow> int" where
  "days_in_month y m = (if m = 2 \<and> is_leap y then 29 else DAYS_IN_MONTH ! nat m)"

definition days_before_month :: "int \<Rightarrow> int \<Rightarrow> int" where
  "days_before_month y m =
     DAYS_BEFORE_MONTH ! nat m + (if 2 < m \<and> is_leap y then 1 else 0)"

definition ymd2ord :: "int \<Rightarrow> int \<Rightarrow> int \<Rightarrow> int" where
  "ymd2ord y m d = days_before_year y + days_before_month y m + d"

definition DI400Y :: int where
  "DI400Y = 146097"

definition DI100Y :: int where
  "DI100Y = 36524"

definition DI4Y :: int where
  "DI4Y = 1461"

text \<open>
  \<open>ord2ymd\<close> is the library's inverse of \<open>ymd2ord\<close>. Its first half peels
  off 400-year, 100-year, 4-year and 1-year cycles; its second half, \<open>yday2md\<close>
  here, takes the day of the year (from 0), guesses the month by a shift and
  corrects the guess when it is one too large.
\<close>

definition yday2md :: "bool \<Rightarrow> int \<Rightarrow> int \<times> int" where
  "yday2md leapyear n =
     (let m = (n + 50) div 32;
          preceding = DAYS_BEFORE_MONTH ! nat m + (if 2 < m \<and> leapyear then 1 else 0);
          (m, preceding) =
            (if n < preceding
             then (m - 1,
                   preceding - (DAYS_IN_MONTH ! nat (m - 1)
                                  + (if m - 1 = 2 \<and> leapyear then 1 else 0)))
             else (m, preceding))
      in (m, n - preceding + 1))"

definition ord2ymd :: "int \<Rightarrow> int \<times> int \<times> int" where
  "ord2ymd n0 =
     (let n = n0 - 1;
          n400 = n div DI400Y; n = n mod DI400Y;
          y = n400 * 400 + 1;
          n100 = n div DI100Y; n = n mod DI100Y;
          n4 = n div DI4Y; n = n mod DI4Y;
          n1 = n div 365; n = n mod 365;
          y = y + n100 * 100 + n4 * 4 + n1
      in if n1 = 4 \<or> n100 = 4 then (y - 1, 12, 31)
         else
           let leapyear = (n1 = 3 \<and> (n4 \<noteq> 24 \<or> n100 = 3));
               (m, d) = yday2md leapyear n
           in (y, m, d))"

text \<open>The constructor of a date checks its fields and raises \<open>ValueError\<close> otherwise.\<close>

definition check_date_fields :: "int \<Rightarrow> int \<Rightarrow> int \<Rightarrow> bool" where
  "check_date_fields y m d =
     (MINYEAR \<le> y \<and> y \<le> MAXYEAR \<and> 1 \<le> m \<and> m \<le> 12 \<and> 1 \<le> d \<and> d \<le> days_in_month y m)"

definition mk_datetime :: "int \<Rightarrow> int \<Rightarrow> int \<Rightarrow> error + datetime" where
  "mk_datetime y m d =
     (if check_date_fields y m d then Inr \<lparr>year = y, month = m, day = d\<rparr> else Inl ValueError)"

definition valid_datetime :: "datetime \<Rightarrow> bool" where
  "valid_datetime dt = check_date_fields (year dt) (month dt) (day dt)"

definition toordinal :: "datetime \<Rightarrow> int" where
  "toordinal dt = ymd2ord (year dt) (month dt) (day dt)"

definition fromordinal :: "int \<Rightarrow> datetime" where
  "fromordinal n = (case ord2ymd n of (y, m, d) \<Rightarrow> \<lparr>year = y, month = m, day = d\<rparr>)"

text \<open>
  \<^verbatim>\<open>dt + timedelta(days=k)\<close>: the sum of the ordinal and \<open>k\<close> must be an ordinal
  of the supported range, otherwise \<open>OverflowError\<close> is raised.
  \<^verbatim>\<open>dt - timedelta(days=k)\<close> is \<^verbatim>\<open>dt + timedelta(days=-k)\<close>, and the difference of
  two midnights is a timedelta whose days are the difference of the ordinals.
\<close>

definition add_days :: "datetime \<Rightarrow> int \<Rightarrow> error + datetime" where
  "add_days dt k =
     (let n = toordinal dt + k
      in if 0 < n \<and> n \<le> MAXORDINAL then Inr (fromordinal n) else Inl OverflowError)"

definition sub_days :: "datetime \<Rightarrow> int \<Rightarrow> error + datetime" where
  "sub_days dt k = add_days dt (- k)"

definition delta_days :: "datetime \<Rightarrow> datetime \<Rightarrow> int" where
  "delta_days a b = toordinal a - toordinal b"

text \<open>
  \<^verbatim>\<open>a < b\<close> on datetimes compares the fields in order. \<open>later_of\<close> and
  \<open>earlier_of\<close> pick the chronologically later and earlier of two dates.
\<close>

definition dt_less :: "datetime \<Rightarrow> datetime \<Rightarrow> bool" where
  "dt_less a b =
     (year a < year b \<or>
      (year a = year b \<and> (month a < month b \<or> (month a = month b \<and> day a < day b))))"

definition later_of :: "datetime \<Rightarrow> datetime \<Rightarrow> datetime" where
  "later_of a b = (if dt_less a b then b else a)"

definition earlier_of :: "datetime \<Rightarrow> datetime \<Rightarrow> datetime" where
  "earlier_of a b = (if dt_less a b then a else b)"

section \<open>Parsing and printing with the format \<^verbatim>\<open>%Y-%m-%d\<close>\<close>

text \<open>
  \<^verbatim>\<open>strptime\<close> compiles the format to the regular expression
  \<^verbatim>\<open>(?P<Y>\d\d\d\d)-(?P<m>1[0-2]|0[1-9]|[1-9])-(?P<d>3[0-1]|[1-2]\d|0[1-9]|[1-9]| [1-9])\<close>,
  matches it at the start of the string, and raises \<open>ValueError\<close> when there is no
  match or when the match does not consume the whole string. A matcher returns
  the list of its possible matches (matched text, rest) in the order a
  backtracking engine tries them; the head of the list is the match found.
  The characters of a \<open>string\<close> are 8-bit, where the digits are \<open>0\<close> to \<open>9\<close> only.
\<close>

type_synonym matcher = "string \<Rightarrow> (string \<times> string) list"

definition one_of :: "string \<Rightarrow> matcher" where
  "one_of cs s = (case s of [] \<Rightarrow> [] | c # r \<Rightarrow> if c \<in> set cs then [([c], r)] else [])"

definition seq :: "matcher \<Rightarrow> matcher \<Rightarrow> matcher" where
  "seq p q s = concat (map (\<lambda>(a, r). map (\<lambda>(b, r'). (a @ b, r')) (q r)) (p s))"

definition alt :: "matcher \<Rightarrow> matcher \<Rightarrow> matcher" where
  "alt p q s = p s @ q s"

definition digit :: matcher where
  "digit = one_of ''0123456789''"

definition nonzero :: matcher where
  "nonzero = one_of ''123456789''"

definition re_Y :: matcher where
  "re_Y = seq digit (seq digit (seq digit digit))"

definition re_m :: matcher where
  "re_m = alt (seq (one_of ''1'') (one_of ''012''))
            (alt (seq (one_of ''0'') nonzero) nonzero)"

definition re_d :: matcher where
  "re_d = alt (seq (one_of ''3'') (one_of ''01''))
            (alt (seq (one_of ''12'') digit)
              (alt (seq (one_of ''0'') nonzero)
                (alt nonzero (seq (one_of '' '') nonzero))))"

definition dash :: matcher where
  "dash = one_of ''-''"

definition format_regex_match :: "string \<Rightarrow> (string \<times> string \<times> string \<times> string) list" where
  "format_regex_match s =
     [(Y, m, d, r5). (Y, r1) \<leftarrow> re_Y s, (u, r2) \<leftarrow> dash r1, (m, r3) \<leftarrow> re_m r2,
                     (v, r4) \<leftarrow> dash r3, (d, r5) \<leftarrow> re_d r4]"

text \<open>\<^verbatim>\<open>int(text)\<close> on the text of a group: blanks are stripped, the digits are decimal.\<close>

definition digit_val :: "char \<Rightarrow> int" where
  "digit_val c = int (of_char c) - 48"

definition py_int :: "string \<Rightarrow> int" where
  "py_int s = foldl (\<lambda>a c. 10 * a + digit_val c) 0 (filter (\<lambda>c. c \<noteq> CHR '' '') s)"

definition strptime :: "string \<Rightarrow> error + datetime" where
  "strptime data_string =
     (case format_regex_match data_string of
        [] \<Rightarrow> Inl ValueError
      | (Y, m, d, rest) # _ \<Rightarrow>
          if rest \<noteq> [] then Inl ValueError
          else mk_datetime (py_int Y) (py_int m) (py_int d))"

text \<open>
  \<^verbatim>\<open>strftime\<close> hands the format to the C library. The month and the day are
  printed on two digits, padded with a zero. The year is printed as a decimal
  number with no padding: 2021 as \<^verbatim>\<open>2021\<close>, and 999 as \<^verbatim>\<open>999\<close>.
\<close>

definition digit_char :: "int \<Rightarrow> char" where
  "digit_char n = ''0123456789'' ! nat n"

function decimal :: "int \<Rightarrow> string" where
  "decimal n = (if n < 10 then [digit_char n] else decimal (n div 10) @ [digit_char (n mod 10)])"
  by pat_completeness auto
termination
  by (relation "measure nat") auto

declare decimal.simps [simp del]

definition fmt2 :: "int \<Rightarrow> string" where
  "fmt2 n = [digit_char (n div 10 mod 10), digit_char (n mod 10)]"

definition strftime :: "datetime \<Rightarrow> string" where
  "strftime dt = decimal (year dt) @ ''-'' @ fmt2 (month dt) @ ''-'' @ fmt2 (day dt)"

text \<open>
  The canonical form of a date is the form \<^verbatim>\<open>YYYY-MM-DD\<close> of the specification:
  the year on four digits, the month and the day on two, each padded with
  zeros. \<open>zfill\<close> is \<^verbatim>\<open>str.zfill\<close>: zeros are put in front of a string up to a width.
\<close>

definition fmt4 :: "int \<Rightarrow> string" where
  "fmt4 n = [digit_char (n div 1000 mod 10), digit_char (n div 100 mod 10),
             digit_char (n div 10 mod 10), digit_char (n mod 10)]"

definition canonical_form :: "datetime \<Rightarrow> string" where
  "canonical_form dt = fmt4 (year dt) @ ''-'' @ fmt2 (month dt) @ ''-'' @ fmt2 (day dt)"


section \<open>The helpers on dates\<close>

text \<open>
  The loop of \<open>get_days\<close>: for each \<open>n\<close> of the range, the date \<open>n\<close> days before
  \<open>end\<close> is printed and appended. An exception of the subtraction leaves the loop.
\<close>

fun days_loop :: "datetime \<Rightarrow> int list \<Rightarrow> error + string list" where
  "days_loop end_dt [] = Inr []"
| "days_loop end_dt (n # ns) =
     (case sub_days end_dt n of
        Inl e \<Rightarrow> Inl e
      | Inr new_date \<Rightarrow>
          (case days_loop end_dt ns of
             Inl e \<Rightarrow> Inl e
           | Inr dates \<Rightarrow> Inr (strftime new_date # dates)))"

text \<open>
  \<open>get_days\<close> returns \<open>Inr None\<close> for the Python \<open>None\<close>, \<open>Inr (Some dates)\<close> for
  a list and \<open>Inl e\<close> when an exception leaves the function. Both calls of
  \<open>strptime\<close> and the comparison are inside the \<^verbatim>\<open>try\<close>, whose handler catches
  every exception; the loop is in the \<^verbatim>\<open>else\<close> branch, outside of it.
\<close>

definition get_days :: "string \<Rightarrow> string \<Rightarrow> error + string list option" where
  "get_days from_date to_date =
     (case strptime from_date of
        Inl e \<Rightarrow> Inr None
      | Inr start \<Rightarrow>
          (case strptime to_date of
             Inl e \<Rightarrow> Inr None
           | Inr end_dt \<Rightarrow>
               if start = end_dt then Inr (Some [from_date])
               else
                 let days = delta_days end_dt start;
                     (end_dt, days) = (if days < 0 then (start, abs days) else (end_dt, days))
                 in (case days_loop end_dt [0..days] of
                       Inl e \<Rightarrow> Inl e
                     | Inr dates \<Rightarrow> Inr (Some dates))))"

text \<open>
  \<open>normalize_date_range\<close>: the two calls of \<open>strptime\<close> are inside the \<^verbatim>\<open>try\<close>;
  the addition of one day is in the \<^verbatim>\<open>else\<close> branch, outside of it.
\<close>

definition normalize_date_range :: "string \<Rightarrow> string \<Rightarrow> error + (string \<times> string) option" where
  "normalize_date_range from_date to_date =
     (case strptime from_date of
        Inl e \<Rightarrow> Inr None
      | Inr start \<Rightarrow>
          (case strptime to_date of
             Inl e \<Rightarrow> Inr None
           | Inr end_dt \<Rightarrow>
               (case add_days end_dt 1 of
                  Inl e \<Rightarrow> Inl e
                | Inr end_dt \<Rightarrow>
                    let end_date = strftime end_dt;
                        start_date = strftime start
                    in Inr (Some (start_date, end_date)))))"

text \<open>
  The arguments of a request are a mapping from names to strings, kept as an
  association list; the empty mapping is falsy. A missing key raises \<open>KeyError\<close>
  inside the first \<^verbatim>\<open>try\<close>, a date that does not parse raises \<open>ValueError\<close> inside
  the second one.
\<close>

definition is_valid_args :: "(string \<times> string) list \<Rightarrow> bool" where
  "is_valid_args args =
     (if args \<noteq> [] then
        (case map_of args ''from'' of
           None \<Rightarrow> False
         | Some from_date \<Rightarrow>
             (case map_of args ''to'' of
                None \<Rightarrow> False
              | Some to_date \<Rightarrow>
                  (case strptime from_date of
                     Inl e \<Rightarrow> False
                   | Inr _ \<Rightarrow>
                       (case strptime to_date of
                          Inl e \<Rightarrow> False
                        | Inr _ \<Rightarrow> True))))
      else False)"

definition VALID_CATEGORY :: "string list" where
  "VALID_CATEGORY =
     [''needsdiagnosis'', ''needstriage'', ''needscontact'', ''contactready'', ''sitewait'']"

definition is_valid_category :: "string \<Rightarrow> bool" where
  "is_valid_category category = (if category \<in> set VALID_CATEGORY then True else False)"

section \<open>Decoded JSON and the operations of the interpreter on it\<close>

text \<open>
  What \<^verbatim>\<open>json.loads\<close> returns: \<open>None\<close>, booleans, integers, floats, strings,
  lists and dictionaries with string keys. The floats are a type parameter, no
  helper looks inside one. A dictionary is an association list in insertion
  order; reading a key takes its first entry, and writing a key replaces the
  value in place when the key is present and appends the entry otherwise.
\<close>

datatype 'f json =
    JNull
  | JBool bool
  | JInt int
  | JFloat 'f
  | JStr string
  | JArr "'f json list"
  | JObj "(string \<times> 'f json) list"

text \<open>\<^verbatim>\<open>obj[key]\<close> with a string key: only a dictionary accepts it.\<close>

fun getitem :: "'f json \<Rightarrow> string \<Rightarrow> error + 'f json" where
  "getitem (JObj kvs) key = (case map_of kvs key of None \<Rightarrow> Inl KeyError | Some v \<Rightarrow> Inr v)"
| "getitem _ key = Inl TypeError"

text \<open>\<^verbatim>\<open>obj[key] = v\<close> with a string key.\<close>

fun setitem :: "'f json \<Rightarrow> string \<Rightarrow> 'f json \<Rightarrow> error + 'f json" where
  "setitem (JObj kvs) key v = Inr (JObj (AList.update key v kvs))"
| "setitem _ key v = Inl TypeError"

text \<open>
  \<^verbatim>\<open>obj[:10]\<close>: strings and lists are sliced; a dictionary refuses the slice as
  a key, and the other values are not subscriptable.
\<close>

fun slice10 :: "'f json \<Rightarrow> error + 'f json" where
  "slice10 (JStr s) = Inr (JStr (take 10 s))"
| "slice10 (JArr xs) = Inr (JArr (take 10 xs))"
| "slice10 _ = Inl TypeError"

text \<open>
  \<^verbatim>\<open>x in dates_list\<close>, where \<open>dates_list\<close> is what \<open>get_days\<close> returns: \<open>None\<close>
  is not iterable; in a list of strings only a string can be equal to an element.
\<close>

fun contains :: "string list option \<Rightarrow> 'f json \<Rightarrow> error + bool" where
  "contains None x = Inl TypeError"
| "contains (Some dates) (JStr s) = Inr (s \<in> set dates)"
| "contains (Some dates) _ = Inr False"

text \<open>
  \<^verbatim>\<open>for x in obj\<close>: a list yields its elements, a dictionary its keys, a string
  its characters; the other values are not iterable.
\<close>

fun iterate :: "'f json \<Rightarrow> error + 'f json list" where
  "iterate (JArr xs) = Inr xs"
| "iterate (JObj kvs) = Inr (map (\<lambda>kv. JStr (fst kv)) kvs)"
| "iterate (JStr s) = Inr (map (\<lambda>c. JStr [c]) s)"
| "iterate _ = Inl TypeError"

section \<open>The helpers on timelines\<close>

text \<open>
  The comprehension of \<open>get_timeline_slice\<close>, element by element: the condition
  reads the \<^verbatim>\<open>"timestamp"\<close> of the element, slices it, and tests the membership;
  the first exception ends the comprehension.
\<close>

fun slice_loop :: "'f json list \<Rightarrow> string list option \<Rightarrow> error + 'f json list" where
  "slice_loop [] dates_list = Inr []"
| "slice_loop (dated_data # rest) dates_list =
     (case getitem dated_data ''timestamp'' of
        Inl e \<Rightarrow> Inl e
      | Inr ts \<Rightarrow>
          (case slice10 ts of
             Inl e \<Rightarrow> Inl e
           | Inr day_part \<Rightarrow>
               (case contains dates_list day_part of
                  Inl e \<Rightarrow> Inl e
                | Inr keep \<Rightarrow>
                    (case slice_loop rest dates_list of
                       Inl e \<Rightarrow> Inl e
                     | Inr sliced \<Rightarrow> Inr (if keep then dated_data # sliced else sliced)))))"

definition get_timeline_slice :: "'f json \<Rightarrow> string list option \<Rightarrow> error + 'f json list" where
  "get_timeline_slice timeline dates_list =
     (case iterate timeline of
        Inl e \<Rightarrow> Inl e
      | Inr items \<Rightarrow> slice_loop items dates_list)"

text \<open>
  \<open>get_json_slice\<close> takes the codec as parameters: \<open>loads\<close> for \<^verbatim>\<open>json.loads\<close>,
  which may raise, and \<open>dumps\<close> for \<^verbatim>\<open>json.dumps\<close>. The type \<open>'t\<close> of the JSON text
  is left open. The dates are computed first, then the text is decoded.
\<close>

definition get_json_slice ::
    "('t \<Rightarrow> error + 'f json) \<Rightarrow> ('f json \<Rightarrow> 't) \<Rightarrow> 't \<Rightarrow> string \<Rightarrow> string \<Rightarrow> error + 't" where
  "get_json_slice loads dumps timeline from_date to_date =
     (case get_days from_date to_date of
        Inl e \<Rightarrow> Inl e
      | Inr dates \<Rightarrow>
          (case loads timeline of
             Inl e \<Rightarrow> Inl e
           | Inr full_data \<Rightarrow>
               (case getitem full_data ''timeline'' of
                  Inl e \<Rightarrow> Inl e
                | Inr records \<Rightarrow>
                    (case get_timeline_slice records dates of
                       Inl e \<Rightarrow> Inl e
                     | Inr partial_data \<Rightarrow>
                         (case setitem full_data ''timeline'' (JArr partial_data) of
                            Inl e \<Rightarrow> Inl e
                          | Inr full_data \<Rightarrow> Inr (dumps full_data))))))"

text \<open>
  A timeline record is a dictionary whose \<^verbatim>\<open>"timestamp"\<close> is a string;
  \<open>date_prefix\<close> is the first 10 characters of that string.
\<close>

fun is_record :: "'f json \<Rightarrow> bool" where
  "is_record (JObj kvs) = (case map_of kvs ''timestamp'' of Some (JStr s) \<Rightarrow> True | _ \<Rightarrow> False)"
| "is_record _ = False"

fun date_prefix :: "'f json \<Rightarrow> string" where
  "date_prefix (JObj kvs) = (case map_of kvs ''timestamp'' of Some (JStr s) \<Rightarrow> take 10 s | _ \<Rightarrow> [])"
| "date_prefix _ = []"

text \<open>
  \<open>within lo hi p\<close>: the string \<open>p\<close> is a date in canonical form, and that date
  is not before \<open>lo\<close> and not after \<open>hi\<close>.
\<close>

definition within :: "datetime \<Rightarrow> datetime \<Rightarrow> string \<Rightarrow> bool" where
  "within lo hi p =
     (case strptime p of
        Inl e \<Rightarrow> False
      | Inr d \<Rightarrow> canonical_form d = p \<and> \<not> dt_less d lo \<and> \<not> dt_less hi d)"

section \<open>The calendar conversions are inverse to each other\<close>




lemma dby_decomp:
  fixes a b c e :: int
  assumes "0 \<le> b" "b \<le> 3" "0 \<le> c" "c \<le> 24" "0 \<le> e" "e \<le> 3"
  shows "days_before_year (400 * a + 100 * b + 4 * c + e + 1) = 146097 * a + 36524 * b + 1461 * c + 365 * e"
proof -
  let ?y1 = "400 * a + 100 * b + 4 * c + e"
  have d4: "?y1 div 4 = 100 * a + 25 * b + c"
    using assms by (intro int_div_pos_eq[where r=e]) auto
  have d100: "?y1 div 100 = 4 * a + b"
    using assms by (intro int_div_pos_eq[where r="4 * c + e"]) auto
  have d400: "?y1 div 400 = a"
    using assms by (intro int_div_pos_eq[where r="100 * b + 4 * c + e"]) auto
  show ?thesis
    unfolding days_before_year_def Let_def using d4 d100 d400 by simp
qed

lemma year_decomp:
  fixes y :: int
  obtains a b c e :: int where "y = 400 * a + 100 * b + 4 * c + e + 1"
    "0 \<le> b" "b \<le> 3" "0 \<le> c" "c \<le> 24" "0 \<le> e" "e \<le> 3"
proof -
  define y1 where "y1 = y - 1"
  define a where "a = y1 div 400" 
  define r where "r = y1 mod 400"
  define b where "b = r div 100" 
  define r' where "r' = r mod 100"
  define c where "c = r' div 4" 
  define e where "e = r' mod 4"
  have 1: "y1 = 400 * a + r" "0 \<le> r" "r < 400" unfolding a_def r_def by simp_all
  have 2: "r = 100 * b + r'" "0 \<le> r'" "r' < 100" unfolding b_def r'_def by simp_all
  have 3: "r' = 4 * c + e" "0 \<le> e" "e < 4" unfolding c_def e_def by simp_all
  have "y = 400 * a + 100 * b + 4 * c + e + 1" using 1 2 3 y1_def by linarith
  moreover have "0 \<le> b" "b \<le> 3" "0 \<le> c" "c \<le> 24" "0 \<le> e" "e \<le> 3"
    using 1 2 3 by linarith+
  ultimately show ?thesis using that by blast
qed



lemma mod_full_iff:
  fixes y k r n :: int
  assumes "y = n * k + r" "0 < r" "r \<le> n"
  shows "(y mod n = 0) = (r = n)"
proof (cases "r = n")
  case True
  then show ?thesis using assms by simp
next
  case False
  then have "r < n" using assms by simp
  then have "(n * k + r) mod n = r" using assms by simp
  then show ?thesis using assms False by simp
qed

lemma is_leap_decomp:
  fixes a b c e :: int
  assumes "0 \<le> b" "b \<le> 3" "0 \<le> c" "c \<le> 24" "0 \<le> e" "e \<le> 3"
  shows "is_leap (400 * a + 100 * b + 4 * c + e + 1) = (e = 3 \<and> (c \<noteq> 24 \<or> b = 3))"
proof -
  define y where "y = 400 * a + 100 * b + 4 * c + e + 1"
  have e4: "y = 4 * (100 * a + 25 * b + c) + (e + 1)" unfolding y_def by simp
  have 4: "(y mod 4 = 0) = (e + 1 = 4)"
    by (rule mod_full_iff[OF e4]) (use assms in auto)
  have e100: "y = 100 * (4 * a + b) + (4 * c + e + 1)" unfolding y_def by simp
  have 100: "(y mod 100 = 0) = (4 * c + e + 1 = 100)"
    by (rule mod_full_iff[OF e100]) (use assms in auto)
  have e400: "y = 400 * a + (100 * b + 4 * c + e + 1)" unfolding y_def by simp
  have 400: "(y mod 400 = 0) = (100 * b + 4 * c + e + 1 = 400)"
    by (rule mod_full_iff[OF e400]) (use assms in auto)
  have "is_leap y = (e = 3 \<and> (c \<noteq> 24 \<or> b = 3))"
    unfolding is_leap_def 4 100 400 using assms by auto
  then show ?thesis unfolding y_def .
qed



lemma days_in_month_le_31: "1 \<le> m \<Longrightarrow> m \<le> 12 \<Longrightarrow> DAYS_IN_MONTH ! nat m \<le> 31"
proof -
  assume "1 \<le> m" "m \<le> 12"
  then have "m \<in> set [1..12]" by simp
  moreover have "list_all (\<lambda>m. DAYS_IN_MONTH ! nat m \<le> 31) [1..12]" by code_simp
  ultimately show ?thesis unfolding list_all_iff by blast
qed

lemma yday2md_fwd_all:
  "list_all (\<lambda>leap. list_all (\<lambda>m. list_all (\<lambda>d.
      d \<le> (if m = 2 \<and> leap then 29 else DAYS_IN_MONTH ! nat m) \<longrightarrow>
      yday2md leap (DAYS_BEFORE_MONTH ! nat m + (if 2 < m \<and> leap then 1 else 0) + d - 1) = (m, d)
      \<and> DAYS_BEFORE_MONTH ! nat m + (if 2 < m \<and> leap then 1 else 0) + d - 1 < (if leap then 366 else 365)
      \<and> 0 \<le> DAYS_BEFORE_MONTH ! nat m)
    [1..31]) [1..12]) [False, True]"
  by code_simp

lemma yday2md_fwd:
  assumes "1 \<le> m" "m \<le> 12" "1 \<le> d" "d \<le> (if m = 2 \<and> leap then 29 else DAYS_IN_MONTH ! nat m)"
  shows "yday2md leap (DAYS_BEFORE_MONTH ! nat m + (if 2 < m \<and> leap then 1 else 0) + d - 1) = (m, d)"
    and "DAYS_BEFORE_MONTH ! nat m + (if 2 < m \<and> leap then 1 else 0) + d - 1 < (if leap then 366 else 365)"
    and "0 \<le> DAYS_BEFORE_MONTH ! nat m"
proof -
  have "d \<le> 31" using assms days_in_month_le_31[of m] by (auto split: if_splits)
  then have l: "leap \<in> set [False, True]" and m: "m \<in> set [1..12]" and d: "d \<in> set [1..31]"
    using assms by auto
  note bspec[OF bspec[OF bspec[OF yday2md_fwd_all[unfolded list_all_iff] l] m] d]
  with assms(4) show "yday2md leap (DAYS_BEFORE_MONTH ! nat m + (if 2 < m \<and> leap then 1 else 0) + d - 1) = (m, d)"
    and "DAYS_BEFORE_MONTH ! nat m + (if 2 < m \<and> leap then 1 else 0) + d - 1 < (if leap then 366 else 365)"
    and "0 \<le> DAYS_BEFORE_MONTH ! nat m"
    by blast+
qed

lemma yday2md_bwd_all:
  "list_all (\<lambda>leap. list_all (\<lambda>n.
      n < (if leap then 366 else 365) \<longrightarrow>
      (case yday2md leap n of (m, d) \<Rightarrow>
         1 \<le> m \<and> m \<le> 12 \<and> 1 \<le> d \<and> d \<le> (if m = 2 \<and> leap then 29 else DAYS_IN_MONTH ! nat m) \<and>
         DAYS_BEFORE_MONTH ! nat m + (if 2 < m \<and> leap then 1 else 0) + d = n + 1))
    [0..365]) [False, True]"
  by code_simp

lemma yday2md_bwd:
  assumes "0 \<le> n" "n < (if leap then 366 else 365)" "yday2md leap n = (m, d)"
  shows "1 \<le> m \<and> m \<le> 12 \<and> 1 \<le> d \<and> d \<le> (if m = 2 \<and> leap then 29 else DAYS_IN_MONTH ! nat m) \<and>
         DAYS_BEFORE_MONTH ! nat m + (if 2 < m \<and> leap then 1 else 0) + d = n + 1"
proof -
  have l: "leap \<in> set [False, True]" and n: "n \<in> set [0..365]"
    using assms by (auto split: if_splits)
  note bspec[OF bspec[OF yday2md_bwd_all[unfolded list_all_iff] l] n]
  with assms(2,3) show ?thesis by simp
qed


lemma ord2ymd_unfold:
  fixes n :: int
  defines "n400 \<equiv> (n - 1) div 146097" and "r1 \<equiv> (n - 1) mod 146097"
  defines "n100 \<equiv> r1 div 36524" and "r2 \<equiv> r1 mod 36524"
  defines "n4 \<equiv> r2 div 1461" and "r3 \<equiv> r2 mod 1461"
  defines "n1 \<equiv> r3 div 365" and "r4 \<equiv> r3 mod 365"
  shows "ord2ymd n =
    (if n1 = 4 \<or> n100 = 4 then (400 * n400 + 100 * n100 + 4 * n4 + n1, 12, 31)
     else case yday2md (n1 = 3 \<and> (n4 \<noteq> 24 \<or> n100 = 3)) r4 of
            (m, d) \<Rightarrow> (400 * n400 + 100 * n100 + 4 * n4 + n1 + 1, m, d))"
  unfolding ord2ymd_def Let_def DI400Y_def DI100Y_def DI4Y_def
    n400_def r1_def n100_def r2_def n4_def r3_def n1_def r4_def
  by (simp add: algebra_simps)

lemma ord2ymd_valid:
  assumes "1 \<le> n" "ord2ymd n = (y, m, d)"
  shows "1 \<le> y \<and> 1 \<le> m \<and> m \<le> 12 \<and> 1 \<le> d \<and> d \<le> days_in_month y m \<and> ymd2ord y m d = n"
proof -
  define n400 where "n400 = (n - 1) div 146097" 
  define r1 where "r1 = (n - 1) mod 146097"
  define n100 where "n100 = r1 div 36524" 
  define r2 where "r2 = r1 mod 36524"
  define n4 where "n4 = r2 div 1461" 
  define r3 where "r3 = r2 mod 1461"
  define n1 where "n1 = r3 div 365" 
  define r4 where "r4 = r3 mod 365"
  have 1: "n - 1 = 146097 * n400 + r1" "0 \<le> r1" "r1 < 146097" "0 \<le> n400"
    using assms(1) unfolding n400_def r1_def by (simp_all add: pos_imp_zdiv_nonneg_iff)
  have 2: "r1 = 36524 * n100 + r2" "0 \<le> r2" "r2 < 36524"
    unfolding n100_def r2_def by simp_all
  have 3: "r2 = 1461 * n4 + r3" "0 \<le> r3" "r3 < 1461"
    unfolding n4_def r3_def by simp_all
  have 4: "r3 = 365 * n1 + r4" "0 \<le> r4" "r4 < 365"
    unfolding n1_def r4_def by simp_all
  have b: "0 \<le> n100" "n100 \<le> 4" "0 \<le> n4" "n4 \<le> 24" "0 \<le> n1" "n1 \<le> 4"
    using 1 2 3 4 by linarith+
  have u: "ord2ymd n =
    (if n1 = 4 \<or> n100 = 4 then (400 * n400 + 100 * n100 + 4 * n4 + n1, 12, 31)
     else case yday2md (n1 = 3 \<and> (n4 \<noteq> 24 \<or> n100 = 3)) r4 of
            (m, d) \<Rightarrow> (400 * n400 + 100 * n100 + 4 * n4 + n1 + 1, m, d))"
    unfolding n400_def r1_def n100_def r2_def n4_def r3_def n1_def r4_def
    by (rule ord2ymd_unfold)
  consider (c100) "n100 = 4" | (c1) "n100 \<le> 3" "n1 = 4" | (reg) "n100 \<le> 3" "n1 \<le> 3"
    using b by linarith
  then show ?thesis
  proof cases
    case c100
    then have z: "r2 = 0" "n4 = 0" "r3 = 0" "n1 = 0" "r4 = 0"
      using 1 2 3 4 b by linarith+
    have y: "y = 400 * n400 + 100 * 3 + 4 * 24 + 3 + 1" and m: "m = 12" and d: "d = 31"
      using u assms(2) c100 z by simp_all
    have dby: "days_before_year y = 146097 * n400 + 36524 * 3 + 1461 * 24 + 365 * 3"
      unfolding y by (rule dby_decomp) simp_all
    have leap: "is_leap y"
      unfolding y by (subst is_leap_decomp) simp_all
    have "ymd2ord y m d = n"
      unfolding ymd2ord_def dby days_before_month_def m d
      using leap 1 2 c100 z by (simp add: DAYS_BEFORE_MONTH_def)
    moreover have "1 \<le> y" using y 1 by linarith
    moreover have "days_in_month y m = 31" unfolding m days_in_month_def DAYS_IN_MONTH_def by simp
    ultimately show ?thesis using m d by simp
  next
    case c1
    then have z: "r4 = 0" "n4 \<le> 23"
      using 1 2 3 4 b by linarith+
    have y: "y = 400 * n400 + 100 * n100 + 4 * n4 + 3 + 1" and m: "m = 12" and d: "d = 31"
      using u assms(2) c1 by simp_all
    have dby: "days_before_year y = 146097 * n400 + 36524 * n100 + 1461 * n4 + 365 * 3"
      unfolding y by (rule dby_decomp) (use b c1 in simp_all)
    have leap: "is_leap y"
      unfolding y by (subst is_leap_decomp) (use b c1 z in simp_all)
    have "ymd2ord y m d = n"
      unfolding ymd2ord_def dby days_before_month_def m d
      using leap 1 2 3 4 c1 z by (simp add: DAYS_BEFORE_MONTH_def)
    moreover have "1 \<le> y" using y 1 b by linarith
    moreover have "days_in_month y m = 31" unfolding m days_in_month_def DAYS_IN_MONTH_def by simp
    ultimately show ?thesis using m d by simp
  next
    case reg
    define leap where "leap = (n1 = 3 \<and> (n4 \<noteq> 24 \<or> n100 = 3))"
    obtain m' d' where md: "yday2md leap r4 = (m', d')" by (cases "yday2md leap r4")
    have y: "y = 400 * n400 + 100 * n100 + 4 * n4 + n1 + 1" and m: "m = m'" and d: "d = d'"
      using u assms(2) reg md unfolding leap_def by simp_all
    have dby: "days_before_year y = 146097 * n400 + 36524 * n100 + 1461 * n4 + 365 * n1"
      unfolding y by (rule dby_decomp) (use b reg in simp_all)
    have il: "is_leap y = leap"
      unfolding y leap_def by (rule is_leap_decomp) (use b reg in simp_all)
    have "r4 < (if leap then 366 else 365)" using 4 by simp
    from yday2md_bwd[OF 4(2) this md]
    have v: "1 \<le> m" "m \<le> 12" "1 \<le> d"
      "d \<le> (if m = 2 \<and> leap then 29 else DAYS_IN_MONTH ! nat m)"
      "DAYS_BEFORE_MONTH ! nat m + (if 2 < m \<and> leap then 1 else 0) + d = r4 + 1"
      unfolding m d by simp_all
    have "ymd2ord y m d = n"
      unfolding ymd2ord_def dby days_before_month_def il
      using v(5) 1 2 3 4 by linarith
    moreover have "1 \<le> y" using y 1 b by linarith
    moreover have "d \<le> days_in_month y m" unfolding days_in_month_def il using v(4) .
    ultimately show ?thesis using v by simp
  qed
qed


lemma yday2md_last: "yday2md True 365 = (12, 31)"
  by code_simp

lemma ymd2ord_inverse:
  assumes "1 \<le> m" "m \<le> 12" "1 \<le> d" "d \<le> days_in_month y m"
  shows "ord2ymd (ymd2ord y m d) = (y, m, d)"
proof -
  obtain a b c e :: int where y: "y = 400 * a + 100 * b + 4 * c + e + 1"
    and b: "0 \<le> b" "b \<le> 3" "0 \<le> c" "c \<le> 24" "0 \<le> e" "e \<le> 3"
    by (rule year_decomp)
  define leap where "leap = (e = 3 \<and> (c \<noteq> 24 \<or> b = 3))"
  have il: "is_leap y = leap"
    unfolding y leap_def by (rule is_leap_decomp) (use b in simp_all)
  have dby: "days_before_year y = 146097 * a + 36524 * b + 1461 * c + 365 * e"
    unfolding y by (rule dby_decomp) (use b in simp_all)
  define k where "k = DAYS_BEFORE_MONTH ! nat m + (if 2 < m \<and> leap then 1 else 0) + d - 1"
  have dl: "d \<le> (if m = 2 \<and> leap then 29 else DAYS_IN_MONTH ! nat m)"
    using assms(4) unfolding days_in_month_def il .
  have md: "yday2md leap k = (m, d)" and kub: "k < (if leap then 366 else 365)"
    and "0 \<le> DAYS_BEFORE_MONTH ! nat m"
    unfolding k_def using yday2md_fwd[OF assms(1,2,3) dl] by simp_all
  then have klb: "0 \<le> k" unfolding k_def using assms(3) by (simp split: if_splits)
  define n where "n = ymd2ord y m d"
  define R3 where "R3 = 365 * e + k"
  define R2 where "R2 = 1461 * c + R3"
  define R1 where "R1 = 36524 * b + R2"
  have n: "n - 1 = 146097 * a + R1"
    unfolding n_def ymd2ord_def dby days_before_month_def il R1_def R2_def R3_def k_def by simp
  have "R1 < 146097" unfolding R1_def R2_def R3_def using b kub by (simp split: if_splits)
  moreover have R1lb: "0 \<le> R1" unfolding R1_def R2_def R3_def using b klb by simp
  ultimately have q400: "(n - 1) div 146097 = a" and m400: "(n - 1) mod 146097 = R1"
    using n by (simp_all add: int_div_pos_eq int_mod_pos_eq)
  have R2lb: "0 \<le> R2" and R3lb: "0 \<le> R3" unfolding R2_def R3_def using b klb by simp_all
  consider (A) "k = 365" "b = 3" "c = 24" | (B) "k = 365" "c \<le> 23" | (C) "k \<le> 364"
  proof -
    have "k \<le> 364 \<or> (k = 365 \<and> leap)" using kub by (cases leap) auto
    moreover have "leap \<Longrightarrow> (b = 3 \<and> c = 24) \<or> c \<le> 23"
      unfolding leap_def using b by linarith
    ultimately show ?thesis using A B C by blast
  qed
  then have "ord2ymd n = (y, m, d)"
  proof cases
    case A
    then have l: "leap" "e = 3" using kub unfolding leap_def by (auto split: if_splits)
    have R1: "R1 = 36524 * 4 + 0" unfolding R1_def R2_def R3_def using A l by simp
    have q100: "R1 div 36524 = 4" unfolding R1 by simp
    have md': "m = 12" "d = 31" using md yday2md_last A l by simp_all
    show ?thesis
      unfolding ord2ymd_unfold q400 m400 q100 md' y using A l R1 by simp
  next
    case B
    then have l: "leap" "e = 3" using kub unfolding leap_def by (auto split: if_splits)
    have "R2 < 36524" unfolding R2_def R3_def using B l by simp
    then have q100: "R1 div 36524 = b" and m100: "R1 mod 36524 = R2"
      using R1_def R2lb by (simp_all add: int_div_pos_eq int_mod_pos_eq)
    have R3: "R3 = 1460" unfolding R3_def using B l by simp
    then have q4: "R2 div 1461 = c" and m4: "R2 mod 1461 = R3"
      using R2_def by (simp_all add: int_div_pos_eq int_mod_pos_eq)
    have q1: "R3 div 365 = 4" unfolding R3 by simp
    have md': "m = 12" "d = 31" using md yday2md_last B l by simp_all
    show ?thesis
      unfolding ord2ymd_unfold q400 m400 q100 m100 q4 m4 q1 md' y using l by simp
  next
    case C
    have "R2 < 36524" unfolding R2_def R3_def using C b by simp
    then have q100: "R1 div 36524 = b" and m100: "R1 mod 36524 = R2"
      using R1_def R2lb by (simp_all add: int_div_pos_eq int_mod_pos_eq)
    have "R3 < 1461" unfolding R3_def using C b by simp
    then have q4: "R2 div 1461 = c" and m4: "R2 mod 1461 = R3"
      using R2_def R3lb by (simp_all add: int_div_pos_eq int_mod_pos_eq)
    have q1: "R3 div 365 = e" and m1: "R3 mod 365 = k"
      using R3_def C klb by (simp_all add: int_div_pos_eq int_mod_pos_eq)
    show ?thesis
      unfolding ord2ymd_unfold q400 m400 q100 m100 q4 m4 q1 m1 y
      using b md unfolding leap_def by simp
  qed
  then show ?thesis unfolding n_def .
qed

lemma ymd2ord_bounds:
  assumes "check_date_fields y m d"
  shows "1 \<le> ymd2ord y m d" and "ymd2ord y m d \<le> MAXORDINAL"
proof -
  have v: "1 \<le> y" "y \<le> 9999" "1 \<le> m" "m \<le> 12" "1 \<le> d" "d \<le> days_in_month y m"
    using assms unfolding check_date_fields_def MINYEAR_def MAXYEAR_def by simp_all
  obtain a b c e :: int where y: "y = 400 * a + 100 * b + 4 * c + e + 1"
    and b: "0 \<le> b" "b \<le> 3" "0 \<le> c" "c \<le> 24" "0 \<le> e" "e \<le> 3"
    by (rule year_decomp)
  have a: "0 \<le> a" "a \<le> 24" using v(1,2) y b by linarith+
  define leap where "leap = (e = 3 \<and> (c \<noteq> 24 \<or> b = 3))"
  have il: "is_leap y = leap"
    unfolding y leap_def by (rule is_leap_decomp) (use b in simp_all)
  have dby: "days_before_year y = 146097 * a + 36524 * b + 1461 * c + 365 * e"
    unfolding y by (rule dby_decomp) (use b in simp_all)
  have dl: "d \<le> (if m = 2 \<and> leap then 29 else DAYS_IN_MONTH ! nat m)"
    using v(6) unfolding days_in_month_def il .
  have kub: "DAYS_BEFORE_MONTH ! nat m + (if 2 < m \<and> leap then 1 else 0) + d - 1 < (if leap then 366 else 365)"
    and klb: "0 \<le> DAYS_BEFORE_MONTH ! nat m"
    using yday2md_fwd[OF v(3,4,5) dl] by simp_all
  show "1 \<le> ymd2ord y m d"
    unfolding ymd2ord_def dby days_before_month_def il using a b klb v(5) by (simp split: if_splits)
  have "146097 * a + 36524 * b + 1461 * c + 365 * e + (if leap then 366 else 365) \<le> 3652059"
  proof (cases "a \<le> 23")
    case True
    then show ?thesis using b by (simp split: if_splits)
  next
    case a24: False
    show ?thesis
    proof (cases "b \<le> 2")
      case True
      then show ?thesis using a b by (simp split: if_splits)
    next
      case b3: False
      show ?thesis
      proof (cases "c \<le> 23")
        case True
        then show ?thesis using a b by (simp split: if_splits)
      next
        case False
        then have "e \<le> 2" using a24 b3 a b v(2) y by linarith
        then have "\<not> leap" unfolding leap_def by simp
        then show ?thesis using a b \<open>e \<le> 2\<close> by simp
      qed
    qed
  qed
  then show "ymd2ord y m d \<le> MAXORDINAL"
    unfolding ymd2ord_def dby days_before_month_def il MAXORDINAL_def using kub by (simp split: if_splits)
qed


lemma ord2ymd_year_le:
  assumes "1 \<le> n" "n \<le> MAXORDINAL" "ord2ymd n = (y, m, d)"
  shows "y \<le> 9999"
proof (rule ccontr)
  assume "\<not> y \<le> 9999"
  then have big: "10000 \<le> y" by simp
  have v: "1 \<le> m" "1 \<le> d" "m \<le> 12" and n: "ymd2ord y m d = n"
    using ord2ymd_valid[OF assms(1,3)] by simp_all
  obtain a b c e :: int where y: "y = 400 * a + 100 * b + 4 * c + e + 1"
    and b: "0 \<le> b" "b \<le> 3" "0 \<le> c" "c \<le> 24" "0 \<le> e" "e \<le> 3"
    by (rule year_decomp)
  have dby: "days_before_year y = 146097 * a + 36524 * b + 1461 * c + 365 * e"
    unfolding y by (rule dby_decomp) (use b in simp_all)
  have "3652059 \<le> days_before_year y"
  proof (cases "25 \<le> a")
    case True
    then show ?thesis unfolding dby using b by linarith
  next
    case False
    then have "a = 24" "b = 3" "c = 24" "e = 3" using big y b by linarith+
    then show ?thesis unfolding dby by simp
  qed
  moreover have "0 \<le> DAYS_BEFORE_MONTH ! nat m"
  proof -
    have "m \<in> set [1..12]" using v by simp
    moreover have "list_all (\<lambda>m. 0 \<le> DAYS_BEFORE_MONTH ! nat m) [1..12]" by code_simp
    ultimately show ?thesis unfolding list_all_iff by blast
  qed
  ultimately have "MAXORDINAL < ymd2ord y m d"
    unfolding ymd2ord_def days_before_month_def MAXORDINAL_def using v by (simp split: if_splits)
  then show False using n assms(2) by simp
qed

lemma fromordinal_valid:
  assumes "1 \<le> n" "n \<le> MAXORDINAL"
  shows "valid_datetime (fromordinal n)" and "toordinal (fromordinal n) = n"
proof -
  obtain y m d where o: "ord2ymd n = (y, m, d)" by (cases "ord2ymd n")
  have f: "fromordinal n = \<lparr>year = y, month = m, day = d\<rparr>"
    unfolding fromordinal_def o by simp
  have v: "1 \<le> y \<and> 1 \<le> m \<and> m \<le> 12 \<and> 1 \<le> d \<and> d \<le> days_in_month y m \<and> ymd2ord y m d = n"
    using ord2ymd_valid[OF assms(1) o] .
  have "y \<le> 9999" using ord2ymd_year_le[OF assms o] .
  with v show "valid_datetime (fromordinal n)"
    unfolding valid_datetime_def check_date_fields_def f MINYEAR_def MAXYEAR_def by simp
  from v show "toordinal (fromordinal n) = n"
    unfolding toordinal_def f by simp
qed

lemma toordinal_range:
  assumes "valid_datetime dt"
  shows "1 \<le> toordinal dt" and "toordinal dt \<le> MAXORDINAL"
  using assms ymd2ord_bounds unfolding valid_datetime_def toordinal_def by blast+

lemma fromordinal_toordinal:
  assumes "valid_datetime dt"
  shows "fromordinal (toordinal dt) = dt"
proof -
  have "ord2ymd (ymd2ord (year dt) (month dt) (day dt)) = (year dt, month dt, day dt)"
    using assms unfolding valid_datetime_def check_date_fields_def
    by (intro ymd2ord_inverse) simp_all
  then show ?thesis unfolding fromordinal_def toordinal_def by simp
qed

lemma toordinal_inj:
  assumes "valid_datetime a" "valid_datetime b" "toordinal a = toordinal b"
  shows "a = b"
  using assms fromordinal_toordinal by metis

lemma strptime_valid:
  assumes "strptime s = Inr dt"
  shows "valid_datetime dt"
  using assms unfolding strptime_def mk_datetime_def valid_datetime_def
  by (auto split: list.splits if_splits prod.splits)

lemma maxdate_ordinal: "toordinal \<lparr>year = 9999, month = 12, day = 31\<rparr> = MAXORDINAL"
  by code_simp

lemma maxdate_valid: "valid_datetime \<lparr>year = 9999, month = 12, day = 31\<rparr>"
  by code_simp

lemma toordinal_below_max:
  assumes "valid_datetime dt" "dt \<noteq> \<lparr>year = 9999, month = 12, day = 31\<rparr>"
  shows "toordinal dt < MAXORDINAL"
  using assms toordinal_range(2)[OF assms(1)] toordinal_inj[OF assms(1) maxdate_valid] maxdate_ordinal
  by fastforce

section \<open>The ordinal follows the order of the dates\<close>


lemma div_step:
  fixes y k :: int
  assumes "0 < k"
  shows "y div k = (y - 1) div k + (if y mod k = 0 then 1 else 0)"
proof (cases "y mod k = 0")
  case True
  have "y = k * (y div k) + y mod k" by simp
  then have "y - 1 = k * (y div k - 1) + (k - 1)" using True by (simp add: algebra_simps)
  then have "(y - 1) div k = y div k - 1"
    using assms by (intro int_div_pos_eq[where r="k - 1"]) simp_all
  then show ?thesis using True by simp
next
  case False
  have r: "0 \<le> y mod k" "y mod k < k" using assms by simp_all
  have "y = k * (y div k) + y mod k" by simp
  then have "y - 1 = k * (y div k) + (y mod k - 1)" by simp
  then have "(y - 1) div k = y div k"
    using assms r False by (intro int_div_pos_eq[where r="y mod k - 1"]) simp_all
  then show ?thesis using False by simp
qed

lemma days_before_year_step:
  "days_before_year (y + 1) = days_before_year y + (if is_leap y then 366 else 365)"
proof -
  define q4 where "q4 = (y - 1) div 4"
  define q100 where "q100 = (y - 1) div 100"
  define q400 where "q400 = (y - 1) div 400"
  have "y mod 4 = y mod 100 mod 4" by (simp add: mod_mod_cancel)
  then have 1: "y mod 100 = 0 \<Longrightarrow> y mod 4 = 0" by simp
  have "y mod 100 = y mod 400 mod 100" by (simp add: mod_mod_cancel)
  then have 2: "y mod 400 = 0 \<Longrightarrow> y mod 100 = 0" by simp
  have s4: "y div 4 = q4 + (if y mod 4 = 0 then 1 else 0)"
    unfolding q4_def by (rule div_step) simp
  have s100: "y div 100 = q100 + (if y mod 100 = 0 then 1 else 0)"
    unfolding q100_def by (rule div_step) simp
  have s400: "y div 400 = q400 + (if y mod 400 = 0 then 1 else 0)"
    unfolding q400_def by (rule div_step) simp
  have a: "days_before_year (y + 1) = y * 365 + y div 4 - y div 100 + y div 400"
    unfolding days_before_year_def Let_def by simp
  have b: "days_before_year y = (y - 1) * 365 + q4 - q100 + q400"
    unfolding days_before_year_def Let_def q4_def q100_def q400_def by simp
  show ?thesis
  proof (cases "y mod 4 = 0")
    case False
    then have "y mod 100 \<noteq> 0" using 1 by auto
    moreover from this have "y mod 400 \<noteq> 0" using 2 by auto
    ultimately have "y mod 100 \<noteq> 0" "y mod 400 \<noteq> 0" by -
    then show ?thesis unfolding a b s4 s100 s400 is_leap_def using False by simp
  next
    case t4: True
    show ?thesis
    proof (cases "y mod 100 = 0")
      case False
      then have "y mod 400 \<noteq> 0" using 2 by auto
      then show ?thesis unfolding a b s4 s100 s400 is_leap_def using False t4 by simp
    next
      case True
      then show ?thesis unfolding a b s4 s100 s400 is_leap_def using t4 by simp
    qed
  qed
qed

lemma days_before_year_mono:
  assumes "y \<le> y'"
  shows "days_before_year y \<le> days_before_year y'"
  using assms
proof (induction y' rule: int_ge_induct)
  case base
  then show ?case by simp
next
  case (step i)
  then show ?case using days_before_year_step[of i] by (simp split: if_splits)
qed


lemma month_order_all:
  "list_all (\<lambda>leap. list_all (\<lambda>m. list_all (\<lambda>m'. m < m' \<longrightarrow>
      DAYS_BEFORE_MONTH ! nat m + (if 2 < m \<and> leap then 1 else 0)
        + (if m = 2 \<and> leap then 29 else DAYS_IN_MONTH ! nat m)
      \<le> DAYS_BEFORE_MONTH ! nat m' + (if 2 < m' \<and> leap then 1 else 0))
    [1..12]) [1..12]) [False, True]"
  by code_simp

lemma month_order:
  assumes "1 \<le> m" "m < m'" "m' \<le> 12"
  shows "DAYS_BEFORE_MONTH ! nat m + (if 2 < m \<and> leap then 1 else 0)
        + (if m = 2 \<and> leap then 29 else DAYS_IN_MONTH ! nat m)
      \<le> DAYS_BEFORE_MONTH ! nat m' + (if 2 < m' \<and> leap then 1 else 0)"
proof -
  have l: "leap \<in> set [False, True]" and m: "m \<in> set [1..12]" and m': "m' \<in> set [1..12]"
    using assms by auto
  note bspec[OF bspec[OF bspec[OF month_order_all[unfolded list_all_iff] l] m] m']
  with assms(2) show ?thesis by blast
qed

lemma toordinal_mono:
  assumes a: "valid_datetime a" and b: "valid_datetime b" and l: "dt_less a b"
  shows "toordinal a < toordinal b"
proof -
  have va: "1 \<le> month a" "month a \<le> 12" "1 \<le> day a"
      "day a \<le> (if month a = 2 \<and> is_leap (year a) then 29 else DAYS_IN_MONTH ! nat (month a))"
    using a unfolding valid_datetime_def check_date_fields_def days_in_month_def by simp_all
  have vb: "1 \<le> month b" "month b \<le> 12" "1 \<le> day b"
      "day b \<le> (if month b = 2 \<and> is_leap (year b) then 29 else DAYS_IN_MONTH ! nat (month b))"
    using b unfolding valid_datetime_def check_date_fields_def days_in_month_def by simp_all
  consider (y) "year a < year b"
    | (m) "year a = year b" "month a < month b"
    | (d) "year a = year b" "month a = month b" "day a < day b"
    using l unfolding dt_less_def by blast
  then show ?thesis
  proof cases
    case y
    have "toordinal a \<le> days_before_year (year a) + (if is_leap (year a) then 366 else 365)"
      unfolding toordinal_def ymd2ord_def days_before_month_def
      using yday2md_fwd(2)[OF va] by (simp split: if_splits)
    also have "\<dots> = days_before_year (year a + 1)" by (simp add: days_before_year_step)
    also have "\<dots> \<le> days_before_year (year b)" using y by (intro days_before_year_mono) simp
    also have "\<dots> < toordinal b"
      unfolding toordinal_def ymd2ord_def days_before_month_def
      using yday2md_fwd(3)[OF vb] vb(3) by (simp split: if_splits)
    finally show ?thesis .
  next
    case m
    have "days_before_month (year a) (month a) + day a \<le> days_before_month (year b) (month b)"
      unfolding days_before_month_def m(1)
      using month_order[OF va(1) m(2) vb(2), of "is_leap (year b)"] va(4) m(1) by (simp split: if_splits)
    then show ?thesis unfolding toordinal_def ymd2ord_def using m(1) vb(3) by simp
  next
    case d
    then show ?thesis unfolding toordinal_def ymd2ord_def by simp
  qed
qed

lemma toordinal_less_iff:
  assumes a: "valid_datetime a" and b: "valid_datetime b"
  shows "(toordinal a < toordinal b) = dt_less a b"
proof
  assume "dt_less a b" then show "toordinal a < toordinal b" using toordinal_mono[OF a b] by simp
next
  assume lt: "toordinal a < toordinal b"
  show "dt_less a b"
  proof (rule ccontr)
    assume n: "\<not> dt_less a b"
    have "a = b \<or> dt_less b a"
      using n unfolding dt_less_def by (cases a, cases b) auto
    then show False using lt toordinal_mono[OF b a] by auto
  qed
qed


section \<open>Parsing the canonical form of a date gives the date back\<close>


lemma digit_char_all:
  "list_all (\<lambda>k. digit_char k \<in> set ''0123456789'' \<and> digit_val (digit_char k) = k \<and> digit_char k \<noteq> CHR '' '') [0..9]"
  by code_simp

lemma digit_char_props:
  assumes "0 \<le> k" "k \<le> 9"
  shows "digit_char k \<in> set ''0123456789''" and "digit_val (digit_char k) = k"
    and "digit_char k \<noteq> CHR '' ''"
proof -
  have "k \<in> set [0..9]" using assms by simp
  from bspec[OF digit_char_all[unfolded list_all_iff] this]
  show "digit_char k \<in> set ''0123456789''" and "digit_val (digit_char k) = k"
    and "digit_char k \<noteq> CHR '' ''"
    by blast+
qed

lemma re_Y_digits:
  assumes "c1 \<in> set ''0123456789''" "c2 \<in> set ''0123456789''"
    "c3 \<in> set ''0123456789''" "c4 \<in> set ''0123456789''"
  shows "re_Y (c1 # c2 # c3 # c4 # r) = [([c1, c2, c3, c4], r)]"
  using assms unfolding re_Y_def seq_def digit_def one_of_def by simp

lemma month_day_all:
  "list_all (\<lambda>m. list_all (\<lambda>d.
     (case [(mm, dd, r5). (mm, r3) \<leftarrow> re_m (fmt2 m @ ''-'' @ fmt2 d), (v, r4) \<leftarrow> dash r3, (dd, r5) \<leftarrow> re_d r4] of
        [] \<Rightarrow> False
      | (mm, dd, r5) # _ \<Rightarrow> py_int mm = m \<and> py_int dd = d \<and> r5 = []))
   [1..31]) [1..12]"
  by code_simp


lemma py_int_fmt4:
  assumes "0 \<le> y" "y \<le> 9999"
  shows "py_int (fmt4 y) = y"
proof -
  define a where "a = y div 1000 mod 10"
  define b where "b = y div 100 mod 10"
  define c where "c = y div 10 mod 10"
  define d where "d = y mod 10"
  have r: "0 \<le> a" "a \<le> 9" "0 \<le> b" "b \<le> 9" "0 \<le> c" "c \<le> 9" "0 \<le> d" "d \<le> 9"
    unfolding a_def b_def c_def d_def by simp_all
  have "y div 1000 < 10" using assms by simp
  then have a': "a = y div 1000" unfolding a_def using assms by simp
  have e1: "y = 10 * (y div 10) + d" unfolding d_def by simp
  have "y div 100 = y div 10 div 10" using zdiv_zmult2_eq[of 10 y 10] by simp
  then have e2: "y div 10 = 10 * (y div 100) + c" unfolding c_def by simp
  have "y div 1000 = y div 100 div 10" using zdiv_zmult2_eq[of 10 y 100] by simp
  then have e3: "y div 100 = 10 * (y div 1000) + b" unfolding b_def by simp
  have y: "y = 1000 * a + 100 * b + 10 * c + d" using e1 e2 e3 a' by linarith
  show ?thesis
    unfolding fmt4_def py_int_def a_def[symmetric] b_def[symmetric] c_def[symmetric] d_def[symmetric]
    using digit_char_props[OF r(1,2)] digit_char_props[OF r(3,4)]
      digit_char_props[OF r(5,6)] digit_char_props[OF r(7,8)] y
    by simp
qed

lemma strptime_canonical_form:
  assumes "valid_datetime dt"
  shows "strptime (canonical_form dt) = Inr dt"
proof -
  have v: "1 \<le> year dt" "year dt \<le> 9999" "1 \<le> month dt" "month dt \<le> 12" "1 \<le> day dt"
    "day dt \<le> days_in_month (year dt) (month dt)"
    using assms unfolding valid_datetime_def check_date_fields_def MINYEAR_def MAXYEAR_def by simp_all
  have "day dt \<le> 31"
    using v days_in_month_le_31[of "month dt"] unfolding days_in_month_def by (simp split: if_splits)
  then have m: "month dt \<in> set [1..12]" and d: "day dt \<in> set [1..31]" using v by simp_all
  define rest where "rest = fmt2 (month dt) @ ''-'' @ fmt2 (day dt)"
  define md where "md =
    [(mm, dd, r5). (mm, r3) \<leftarrow> re_m rest, (v, r4) \<leftarrow> dash r3, (dd, r5) \<leftarrow> re_d r4]"
  have "case md of [] \<Rightarrow> False
      | (mm, dd, r5) # _ \<Rightarrow> py_int mm = month dt \<and> py_int dd = day dt \<and> r5 = []"
    unfolding md_def rest_def
    using bspec[OF bspec[OF month_day_all[unfolded list_all_iff] m] d] .
  then obtain mm dd tl where md: "md = (mm, dd, []) # tl" and mm: "py_int mm = month dt"
    and dd: "py_int dd = day dt"
    by (auto split: list.splits)
  define Y where "Y = fmt4 (year dt)"
  have reY: "re_Y (Y @ ''-'' @ rest) = [(Y, ''-'' @ rest)]"
    unfolding Y_def fmt4_def append_Cons append_Nil
    by (rule re_Y_digits; (rule digit_char_props(1); simp))
  have m1: "format_regex_match (Y @ ''-'' @ rest) = map (\<lambda>(mm, dd, r5). (Y, mm, dd, r5)) md"
    unfolding format_regex_match_def reY md_def
    by (simp add: dash_def one_of_def map_concat comp_def case_prod_unfold)
  have "strptime (canonical_form dt) = strptime (Y @ ''-'' @ rest)"
    unfolding canonical_form_def Y_def rest_def by simp
  also have "\<dots> = mk_datetime (py_int Y) (month dt) (day dt)"
    unfolding strptime_def m1 md using mm dd by simp
  also have "\<dots> = Inr dt"
  proof -
    have "py_int Y = year dt" unfolding Y_def using v(1,2) by (intro py_int_fmt4) simp_all
    then show ?thesis
      unfolding mk_datetime_def using assms by (simp add: valid_datetime_def)
  qed
  finally show ?thesis .
qed


section \<open>What \<open>get_days\<close> computes\<close>


lemma days_loop_map:
  assumes "\<forall>n \<in> set ns. 0 < toordinal e - n \<and> toordinal e - n \<le> MAXORDINAL"
  shows "days_loop e ns = Inr (map (\<lambda>n. strftime (fromordinal (toordinal e - n))) ns)"
  using assms by (induction ns) (simp_all add: sub_days_def add_days_def)

lemma rev_upto_map:
  fixes lo hi :: int
  shows "map (\<lambda>n. hi - n) [0..hi - lo] = rev [lo..hi]"
proof (rule nth_equalityI)
  show "length (map (\<lambda>n. hi - n) [0..hi - lo]) = length (rev [lo..hi])" by simp
next
  fix i assume "i < length (map (\<lambda>n. hi - n) [0..hi - lo])"
  then have i: "int i \<le> hi - lo" "i < nat (hi - lo + 1)" by simp_all
  then have "rev [lo..hi] ! i = [lo..hi] ! (nat (hi - lo + 1) - Suc i)"
    by (simp add: rev_nth)
  also have "\<dots> = lo + int (nat (hi - lo + 1) - Suc i)"
    using i by (intro nth_upto) linarith
  also have "\<dots> = hi - int i" using i by linarith
  finally show "map (\<lambda>n. hi - n) [0..hi - lo] ! i = rev [lo..hi] ! i"
    using i by simp
qed

lemma get_days_distinct:
  assumes a: "strptime from_date = Inr d1" and b: "strptime to_date = Inr d2" and ne: "d1 \<noteq> d2"
  shows "get_days from_date to_date =
           Inr (Some (map (\<lambda>n. strftime (fromordinal n))
                        (rev [min (toordinal d1) (toordinal d2)..max (toordinal d1) (toordinal d2)])))"
proof -
  define lo where "lo = min (toordinal d1) (toordinal d2)"
  define hi where "hi = max (toordinal d1) (toordinal d2)"
  have v: "valid_datetime d1" "valid_datetime d2" using a b strptime_valid by blast+
  have r: "1 \<le> lo" "hi \<le> MAXORDINAL" "lo \<le> hi"
    unfolding lo_def hi_def using toordinal_range[OF v(1)] toordinal_range[OF v(2)] by auto
  define e where "e = (if toordinal d2 - toordinal d1 < 0 then d1 else d2)"
  have e: "toordinal e = hi" unfolding e_def hi_def by auto
  have days: "(if toordinal d2 - toordinal d1 < 0 then abs (toordinal d2 - toordinal d1) else toordinal d2 - toordinal d1) = hi - lo"
    unfolding hi_def lo_def by auto
  have "days_loop e [0..hi - lo] = Inr (map (\<lambda>n. strftime (fromordinal (toordinal e - n))) [0..hi - lo])"
    by (rule days_loop_map) (use r e in auto)
  also have "map (\<lambda>n. strftime (fromordinal (toordinal e - n))) [0..hi - lo]
      = map (\<lambda>n. strftime (fromordinal n)) (map (\<lambda>n. hi - n) [0..hi - lo])"
    unfolding e by (simp add: comp_def)
  finally have loop: "days_loop e [0..hi - lo] = Inr (map (\<lambda>n. strftime (fromordinal n)) (rev [lo..hi]))"
    unfolding rev_upto_map .
  have "get_days from_date to_date =
    (case days_loop e [0..hi - lo] of Inl e \<Rightarrow> Inl e | Inr dates \<Rightarrow> Inr (Some dates))"
    unfolding get_days_def a b delta_days_def Let_def e_def days[symmetric] using ne
    by (simp split: if_splits)
  then have "get_days from_date to_date = Inr (Some (map (\<lambda>n. strftime (fromordinal n)) (rev [lo..hi])))"
    unfolding loop by simp
  then show ?thesis unfolding lo_def hi_def .
qed

lemma get_days_same:
  assumes "strptime from_date = Inr d" "strptime to_date = Inr d"
  shows "get_days from_date to_date = Inr (Some [from_date])"
  unfolding get_days_def assms by simp

lemma get_days_invalid:
  assumes "strptime from_date = Inl e1 \<or> strptime to_date = Inl e2"
  shows "get_days from_date to_date = Inr None"
  using assms unfolding get_days_def by (auto split: sum.splits)


lemma toordinal_later_earlier:
  assumes "valid_datetime a" "valid_datetime b"
  shows "toordinal (later_of a b) = max (toordinal a) (toordinal b)"
    and "toordinal (earlier_of a b) = min (toordinal a) (toordinal b)"
  unfolding later_of_def earlier_of_def
  using toordinal_less_iff[OF assms] by auto

lemma later_earlier_cases:
  "(later_of a b = a \<and> earlier_of a b = b) \<or> (later_of a b = b \<and> earlier_of a b = a)"
  unfolding later_of_def earlier_of_def by simp

lemma later_earlier_valid:
  assumes "valid_datetime a" "valid_datetime b"
  shows "valid_datetime (later_of a b)" and "valid_datetime (earlier_of a b)"
  using assms unfolding later_of_def earlier_of_def by simp_all

lemma get_days_span:
  assumes a: "strptime from_date = Inr d1" and b: "strptime to_date = Inr d2" and ne: "d1 \<noteq> d2"
  defines "ds \<equiv> map fromordinal (rev [toordinal (earlier_of d1 d2)..toordinal (later_of d1 d2)])"
  shows "get_days from_date to_date = Inr (Some (map strftime ds))"
    and "list_all valid_datetime ds"
    and "map toordinal ds = rev [toordinal (earlier_of d1 d2)..toordinal (later_of d1 d2)]"
    and "hd ds = later_of d1 d2" and "last ds = earlier_of d1 d2"
proof -
  have v: "valid_datetime d1" "valid_datetime d2" using a b strptime_valid by blast+
  define lo where "lo = toordinal (earlier_of d1 d2)"
  define hi where "hi = toordinal (later_of d1 d2)"
  have lh: "lo = min (toordinal d1) (toordinal d2)" "hi = max (toordinal d1) (toordinal d2)"
    unfolding lo_def hi_def using toordinal_later_earlier[OF v] by simp_all
  have r: "1 \<le> lo" "hi \<le> MAXORDINAL" "lo \<le> hi"
    unfolding lh using toordinal_range[OF v(1)] toordinal_range[OF v(2)] by auto
  have ds: "ds = map fromordinal (rev [lo..hi])" unfolding ds_def lo_def hi_def ..
  show "get_days from_date to_date = Inr (Some (map strftime ds))"
    unfolding ds lh get_days_distinct[OF a b ne] by (simp add: comp_def)
  have each: "\<And>n. n \<in> set [lo..hi] \<Longrightarrow> valid_datetime (fromordinal n) \<and> toordinal (fromordinal n) = n"
    using r fromordinal_valid by simp
  show "list_all valid_datetime ds" unfolding ds list_all_iff using each by simp
  have "map (\<lambda>n. toordinal (fromordinal n)) (rev [lo..hi]) = rev [lo..hi]"
    by (rule map_idI) (use each in simp)
  then have "map toordinal ds = rev [lo..hi]"
    unfolding ds by (simp add: comp_def)
  then show "map toordinal ds = rev [toordinal (earlier_of d1 d2)..toordinal (later_of d1 d2)]"
    unfolding lo_def hi_def .
  have ne': "[lo..hi] \<noteq> []" using r by simp
  have l: "last [lo..hi] = hi" using upto_rec2[OF r(3)] by simp
  have h: "hd [lo..hi] = lo" using upto_rec1[OF r(3)] by simp
  have "hd ds = fromordinal hi"
    unfolding ds using ne' l by (simp add: hd_map hd_rev)
  then show "hd ds = later_of d1 d2"
    unfolding hi_def using fromordinal_toordinal[OF later_earlier_valid(1)[OF v]] by simp
  have "last ds = fromordinal lo"
    unfolding ds using ne' h by (simp add: last_map last_rev)
  then show "last ds = earlier_of d1 d2"
    unfolding lo_def using fromordinal_toordinal[OF later_earlier_valid(2)[OF v]] by simp
qed


section \<open>What \<open>strftime\<close> prints, against the canonical form\<close>


lemma decimal_digits:
  fixes y :: int
  assumes "0 \<le> y" "y \<le> 9999"
  shows "y < 10 \<Longrightarrow> decimal y = [digit_char y]"
    and "10 \<le> y \<Longrightarrow> y < 100 \<Longrightarrow> decimal y = [digit_char (y div 10), digit_char (y mod 10)]"
    and "100 \<le> y \<Longrightarrow> y < 1000 \<Longrightarrow>
           decimal y = [digit_char (y div 100), digit_char (y div 10 mod 10), digit_char (y mod 10)]"
    and "1000 \<le> y \<Longrightarrow>
           decimal y = [digit_char (y div 1000), digit_char (y div 100 mod 10),
                        digit_char (y div 10 mod 10), digit_char (y mod 10)]"
proof -
  have d100: "y div 10 div 10 = y div 100" using zdiv_zmult2_eq[of 10 y 10] by simp
  have d1000: "y div 100 div 10 = y div 1000" using zdiv_zmult2_eq[of 10 y 100] by simp
  show 1: "y < 10 \<Longrightarrow> decimal y = [digit_char y]"
    by (subst decimal.simps) simp
  show 2: "10 \<le> y \<Longrightarrow> y < 100 \<Longrightarrow> decimal y = [digit_char (y div 10), digit_char (y mod 10)]"
  proof -
    assume a: "10 \<le> y" "y < 100"
    have "decimal (y div 10) = [digit_char (y div 10)]"
      using a by (subst decimal.simps) simp
    then show ?thesis using a by (subst decimal.simps) simp
  qed
  show 3: "100 \<le> y \<Longrightarrow> y < 1000 \<Longrightarrow>
           decimal y = [digit_char (y div 100), digit_char (y div 10 mod 10), digit_char (y mod 10)]"
  proof -
    assume a: "100 \<le> y" "y < 1000"
    have "decimal (y div 100) = [digit_char (y div 100)]"
      using a by (subst decimal.simps) simp
    then have "decimal (y div 10) = [digit_char (y div 100), digit_char (y div 10 mod 10)]"
      using a d100 by (subst decimal.simps) simp
    then show ?thesis using a by (subst decimal.simps) simp
  qed
  show "1000 \<le> y \<Longrightarrow>
           decimal y = [digit_char (y div 1000), digit_char (y div 100 mod 10),
                        digit_char (y div 10 mod 10), digit_char (y mod 10)]"
  proof -
    assume a: "1000 \<le> y"
    have "decimal (y div 1000) = [digit_char (y div 1000)]"
      using a assms by (subst decimal.simps) simp
    then have "decimal (y div 100) = [digit_char (y div 1000), digit_char (y div 100 mod 10)]"
      using a d1000 by (subst decimal.simps) simp
    then have "decimal (y div 10)
        = [digit_char (y div 1000), digit_char (y div 100 mod 10), digit_char (y div 10 mod 10)]"
      using a d100 by (subst decimal.simps) simp
    then show ?thesis using a by (subst decimal.simps) simp
  qed
qed

lemma decimal_fmt4:
  assumes "1000 \<le> y" "y \<le> 9999"
  shows "decimal y = fmt4 y"
proof -
  have "y div 1000 mod 10 = y div 1000" using assms by simp
  then show ?thesis unfolding fmt4_def using decimal_digits(4)[of y] assms by simp
qed


lemma strftime_canonical_form:
  assumes "valid_datetime dt" "1000 \<le> year dt"
  shows "strftime dt = canonical_form dt"
proof -
  have "year dt \<le> 9999"
    using assms(1) unfolding valid_datetime_def check_date_fields_def MAXYEAR_def by simp
  then show ?thesis
    unfolding strftime_def canonical_form_def using decimal_fmt4[OF assms(2)] by simp
qed


lemma canonical_form_inj:
  assumes "valid_datetime a" "valid_datetime b" "canonical_form a = canonical_form b"
  shows "a = b"
proof -
  have "Inr a = strptime (canonical_form a)" using strptime_canonical_form[OF assms(1)] by simp
  also have "\<dots> = Inr b" unfolding assms(3) using strptime_canonical_form[OF assms(2)] .
  finally show ?thesis by simp
qed

section \<open>The claims about \<open>get_days\<close>\<close>

lemma year_not_before:
  assumes "\<not> dt_less d lo"
  shows "year lo \<le> year d"
  using assms unfolding dt_less_def by auto



text \<open>
  C6. For two date strings that parse, the list of \<open>get_days\<close> has as many
  elements as the absolute difference of the two dates in days, plus one; when
  the two strings parse to the same day the list is the single \<open>from_date\<close>.
\<close>

theorem get_days_length:
  assumes "strptime from_date = Inr d1" and "strptime to_date = Inr d2"
  shows "\<exists>dates. get_days from_date to_date = Inr (Some dates)
           \<and> int (length dates) = \<bar>delta_days d2 d1\<bar> + 1
           \<and> (d1 = d2 \<longrightarrow> dates = [from_date])"
proof (cases "d1 = d2")
  case True
  then show ?thesis using get_days_same[OF assms(1)] assms(2) by (simp add: delta_days_def)
next
  case False
  have "int (length (rev [min (toordinal d1) (toordinal d2)..max (toordinal d1) (toordinal d2)]))
      = \<bar>delta_days d2 d1\<bar> + 1"
    unfolding delta_days_def by (simp add: min_def max_def)
  then show ?thesis unfolding get_days_distinct[OF assms False] using False by simp
qed

theorem get_days_length_witness:
  "strptime ''2020-02-27'' = Inr \<lparr>year = 2020, month = 2, day = 27\<rparr>
   \<and> strptime ''2020-03-02'' = Inr \<lparr>year = 2020, month = 3, day = 2\<rparr>
   \<and> delta_days \<lparr>year = 2020, month = 3, day = 2\<rparr> \<lparr>year = 2020, month = 2, day = 27\<rparr> = 4
   \<and> (\<exists>dates. get_days ''2020-02-27'' ''2020-03-02'' = Inr (Some dates) \<and> length dates = 5)"
proof -
  have a: "strptime ''2020-02-27'' = Inr \<lparr>year = 2020, month = 2, day = 27\<rparr>" by code_simp
  have b: "strptime ''2020-03-02'' = Inr \<lparr>year = 2020, month = 3, day = 2\<rparr>" by code_simp
  have c: "delta_days \<lparr>year = 2020, month = 3, day = 2\<rparr> \<lparr>year = 2020, month = 2, day = 27\<rparr> = 4"
    by code_simp
  from get_days_length[OF a b] show ?thesis unfolding c using a b by auto
qed

text \<open>
  C7. When the two date strings parse to the same day, \<open>get_days\<close> returns the
  list whose only element is \<open>from_date\<close> as it was given, not its printed form.
\<close>

theorem get_days_same_day_keeps_from_date:
  assumes "strptime from_date = Inr d" and "strptime to_date = Inr d"
  shows "get_days from_date to_date = Inr (Some [from_date])"
  unfolding get_days_def assms by simp

theorem get_days_same_day_keeps_from_date_witness:
  "strptime ''2021-1-1'' = Inr \<lparr>year = 2021, month = 1, day = 1\<rparr>
   \<and> strptime ''2021-01-01'' = Inr \<lparr>year = 2021, month = 1, day = 1\<rparr>
   \<and> get_days ''2021-1-1'' ''2021-01-01'' = Inr (Some [''2021-1-1''])
   \<and> strftime \<lparr>year = 2021, month = 1, day = 1\<rparr> \<noteq> ''2021-1-1''"
proof -
  have a: "strptime ''2021-1-1'' = Inr \<lparr>year = 2021, month = 1, day = 1\<rparr>" by code_simp
  have b: "strptime ''2021-01-01'' = Inr \<lparr>year = 2021, month = 1, day = 1\<rparr>" by code_simp
  have c: "strftime \<lparr>year = 2021, month = 1, day = 1\<rparr> \<noteq> ''2021-1-1''" by code_simp
  from get_days_same_day_keeps_from_date[OF a b] show ?thesis using a b c by simp
qed

lemma normalize_date_range_invalid:
  assumes "strptime from_date = Inl e1 \<or> strptime to_date = Inl e2"
  shows "normalize_date_range from_date to_date = Inr None"
  using assms unfolding normalize_date_range_def by (auto split: sum.splits)

text \<open>
  C8. When one of the two date strings does not parse, \<open>get_days\<close> and
  \<open>normalize_date_range\<close> return \<open>None\<close> and no exception leaves them;
  \<open>is_valid_args\<close> returns \<open>False\<close> when its argument is empty, when the key
  \<^verbatim>\<open>from\<close> or the key \<^verbatim>\<open>to\<close> is missing, and when one of the two values does not
  parse.
\<close>

theorem invalid_input_gives_sentinel:
  "((\<exists>e. strptime from_date = Inl e) \<or> (\<exists>e. strptime to_date = Inl e) \<longrightarrow>
      get_days from_date to_date = Inr None \<and> normalize_date_range from_date to_date = Inr None)
   \<and> (args = [] \<or> map_of args ''from'' = None \<or> map_of args ''to'' = None
        \<or> (\<exists>v e. map_of args ''from'' = Some v \<and> strptime v = Inl e)
        \<or> (\<exists>v e. map_of args ''to'' = Some v \<and> strptime v = Inl e) \<longrightarrow>
      is_valid_args args = False)"
proof (intro conjI impI)
  assume "(\<exists>e. strptime from_date = Inl e) \<or> (\<exists>e. strptime to_date = Inl e)"
  then obtain e1 e2 where "strptime from_date = Inl e1 \<or> strptime to_date = Inl e2" by blast
  then show "get_days from_date to_date = Inr None"
    and "normalize_date_range from_date to_date = Inr None"
    using get_days_invalid normalize_date_range_invalid by blast+
next
  assume "args = [] \<or> map_of args ''from'' = None \<or> map_of args ''to'' = None
        \<or> (\<exists>v e. map_of args ''from'' = Some v \<and> strptime v = Inl e)
        \<or> (\<exists>v e. map_of args ''to'' = Some v \<and> strptime v = Inl e)"
  then show "is_valid_args args = False"
    unfolding is_valid_args_def by (auto split: option.splits sum.splits)
qed

theorem invalid_input_gives_sentinel_witness:
  "strptime ''bad-date'' = Inl ValueError
   \<and> get_days ''bad-date'' ''2021-01-01'' = Inr None
   \<and> normalize_date_range ''bad-date'' ''2021-01-01'' = Inr None
   \<and> map_of [(''from'', ''x''), (''to'', ''2021-01-02'')] ''from'' = Some ''x''
   \<and> strptime ''x'' = Inl ValueError
   \<and> is_valid_args [(''from'', ''x''), (''to'', ''2021-01-02'')] = False"
proof -
  have a: "strptime ''bad-date'' = Inl ValueError" by code_simp
  have b: "map_of [(''from'', ''x''), (''to'', ''2021-01-02'')] ''from'' = Some ''x''" by simp
  have c: "strptime ''x'' = Inl ValueError" by code_simp
  from invalid_input_gives_sentinel[of "''bad-date''" "''2021-01-01''"
      "[(''from'', ''x''), (''to'', ''2021-01-02'')]"]
  show ?thesis using a b c by blast
qed

section \<open>The claims about the timeline helpers\<close>

lemma slice_loop_records:
  assumes "list_all is_record records"
  shows "slice_loop records (Some dates) = Inr (filter (\<lambda>r. date_prefix r \<in> set dates) records)"
  using assms
proof (induction records)
  case Nil
  then show ?case by simp
next
  case (Cons r rs)
  from Cons.prems obtain kvs s where r: "r = JObj kvs" and ts: "map_of kvs ''timestamp'' = Some (JStr s)"
    by (cases r) (auto split: option.splits json.splits)
  have "slice_loop rs (Some dates) = Inr (filter (\<lambda>r. date_prefix r \<in> set dates) rs)"
    using Cons by simp
  then show ?case unfolding r using ts by simp
qed

lemma get_timeline_slice_records:
  assumes "list_all is_record records"
  shows "get_timeline_slice (JArr records) (Some dates) = Inr (filter (\<lambda>r. date_prefix r \<in> set dates) records)"
  unfolding get_timeline_slice_def using slice_loop_records[OF assms] by simp

text \<open>
  C3. On a sequence of timeline records and a list of date strings,
  \<open>get_timeline_slice\<close> returns the records whose timestamp starts with ten
  characters that are in the list, and only them: the result is the input
  filtered, so it is a subsequence of the input with the records as they were,
  and it is not longer than the input.
\<close>

theorem get_timeline_slice_filters:
  assumes "list_all is_record records"
  shows "\<exists>sliced. get_timeline_slice (JArr records) (Some dates_list) = Inr sliced
           \<and> sliced = filter (\<lambda>r. date_prefix r \<in> set dates_list) records
           \<and> set sliced = {r \<in> set records. date_prefix r \<in> set dates_list}
           \<and> subseq sliced records
           \<and> length sliced \<le> length records"
  using get_timeline_slice_records[OF assms] by simp

theorem get_timeline_slice_filters_witness:
  "list_all is_record
     [JObj [(''count'', JInt 4), (''timestamp'', JStr ''2021-01-05T00:00:00Z'')],
      JObj [(''count'', JInt 7), (''timestamp'', JStr ''2021-01-02T00:00:00Z'')],
      JObj [(''count'', JInt 9), (''timestamp'', JStr ''2021-01-01T00:00:00Z'') :: string \<times> unit json]]
   \<and> get_timeline_slice
        (JArr [JObj [(''count'', JInt 4), (''timestamp'', JStr ''2021-01-05T00:00:00Z'')],
               JObj [(''count'', JInt 7), (''timestamp'', JStr ''2021-01-02T00:00:00Z'')],
               JObj [(''count'', JInt 9), (''timestamp'', JStr ''2021-01-01T00:00:00Z'')]] :: unit json)
        (Some [''2021-01-05'', ''2021-01-01''])
      = Inr [JObj [(''count'', JInt 4), (''timestamp'', JStr ''2021-01-05T00:00:00Z'')],
             JObj [(''count'', JInt 9), (''timestamp'', JStr ''2021-01-01T00:00:00Z'')]]"
proof -
  have r: "list_all is_record
     [JObj [(''count'', JInt 4), (''timestamp'', JStr ''2021-01-05T00:00:00Z'')],
      JObj [(''count'', JInt 7), (''timestamp'', JStr ''2021-01-02T00:00:00Z'')],
      JObj [(''count'', JInt 9), (''timestamp'', JStr ''2021-01-01T00:00:00Z'') :: string \<times> unit json]]"
    by simp
  from get_timeline_slice_filters[OF r, of "[''2021-01-05'', ''2021-01-01'']"]
  show ?thesis using r by simp
qed

lemma get_json_slice_unfold:
  assumes "get_days from_date to_date = Inr dates"
    and "loads timeline = Inr (JObj items)"
    and "map_of items ''timeline'' = Some records"
    and "get_timeline_slice records dates = Inr partial_data"
  shows "get_json_slice loads dumps timeline from_date to_date
           = Inr (dumps (JObj (AList.update ''timeline'' (JArr partial_data) items)))"
  unfolding get_json_slice_def using assms by simp

text \<open>
  C1, the claim as stated fails: with a date that does not parse and a timeline
  of one record, the membership test in \<open>None\<close> raises \<open>TypeError\<close>, which leaves
  \<open>get_json_slice\<close>. The codec here decodes a text to itself.
\<close>

theorem get_json_slice_invalid_dates_counterexample:
  "strptime ''bad-date'' = Inl ValueError
   \<and> get_json_slice Inr (\<lambda>j. j)
        (JObj [(''timeline'',
                JArr [JObj [(''count'', JInt 1), (''timestamp'', JStr ''2021-01-01T00:00:00Z'')]])]
           :: unit json)
        ''bad-date'' ''2021-01-01''
      = Inl TypeError"
  by code_simp

text \<open>
  C1, amended. When one of the two dates does not parse and the timeline of the
  envelope is the empty sequence, \<open>get_json_slice\<close> returns the envelope encoded
  again, its timeline empty, and no exception leaves it.
\<close>

theorem get_json_slice_invalid_dates_empty_timeline:
  assumes "(\<exists>e. strptime from_date = Inl e) \<or> (\<exists>e. strptime to_date = Inl e)"
    and "loads timeline = Inr (JObj items)"
    and "map_of items ''timeline'' = Some (JArr [])"
  shows "get_json_slice loads dumps timeline from_date to_date = Inr (dumps (JObj items))"
proof -
  obtain e1 e2 where "strptime from_date = Inl e1 \<or> strptime to_date = Inl e2"
    using assms(1) by blast
  then have d: "get_days from_date to_date = Inr None" by (rule get_days_invalid)
  have s: "get_timeline_slice (JArr []) None = Inr []"
    unfolding get_timeline_slice_def by simp
  show ?thesis
    unfolding get_json_slice_unfold[where loads=loads and timeline=timeline, OF d assms(2,3) s]
      AList.update_triv[OF assms(3)] ..
qed

theorem get_json_slice_invalid_dates_empty_timeline_witness:
  "strptime ''bad-date'' = Inl ValueError
   \<and> get_json_slice Inr (\<lambda>j. j)
        (JObj [(''category'', JStr ''sitewait''), (''timeline'', JArr [])] :: unit json)
        ''bad-date'' ''2021-01-01''
      = Inr (JObj [(''category'', JStr ''sitewait''), (''timeline'', JArr [])])"
proof -
  have a: "strptime ''bad-date'' = Inl ValueError" by code_simp
  then have b: "(\<exists>e. strptime ''bad-date'' = Inl e) \<or> (\<exists>e. strptime ''2021-01-01'' = Inl e)"
    by blast
  let ?env = "JObj [(''category'', JStr ''sitewait''), (''timeline'', JArr [])] :: unit json"
  have c: "(Inr :: unit json \<Rightarrow> error + unit json) ?env
      = Inr (JObj [(''category'', JStr ''sitewait''), (''timeline'', JArr [])])"
    by simp
  have d: "map_of [(''category'', JStr ''sitewait''), (''timeline'', JArr [] :: unit json)] ''timeline''
      = Some (JArr [])"
    by simp
  from get_json_slice_invalid_dates_empty_timeline[
      where loads="Inr :: unit json \<Rightarrow> error + unit json" and timeline="?env"
        and dumps="\<lambda>j. j", OF b c d]
  show ?thesis using a by simp
qed

lemma get_days_returns:
  assumes "strptime from_date = Inr d1" and "strptime to_date = Inr d2"
  shows "\<exists>dates. get_days from_date to_date = Inr (Some dates)"
proof (cases "d1 = d2")
  case True
  then show ?thesis using get_days_same assms by blast
next
  case False
  then show ?thesis using get_days_distinct[OF assms] by blast
qed

text \<open>
  C9. For two valid date strings and an envelope whose timeline is a sequence of
  records, \<open>get_json_slice\<close> encodes an envelope with the same keys in the same
  order, where every key other than \<^verbatim>\<open>timeline\<close> has the value it had and
  \<^verbatim>\<open>timeline\<close> has the sliced records.
\<close>

theorem get_json_slice_frame:
  assumes "strptime from_date = Inr d1" and "strptime to_date = Inr d2"
    and "loads timeline = Inr (JObj items)"
    and "map_of items ''timeline'' = Some (JArr records)"
    and "list_all is_record records"
  shows "\<exists>items' sliced. get_json_slice loads dumps timeline from_date to_date = Inr (dumps (JObj items'))
           \<and> map fst items' = map fst items
           \<and> (\<forall>k. k \<noteq> ''timeline'' \<longrightarrow> map_of items' k = map_of items k)
           \<and> map_of items' ''timeline'' = Some (JArr sliced) \<and> subseq sliced records"
proof -
  obtain dates where g: "get_days from_date to_date = Inr (Some dates)"
    using get_days_returns[OF assms(1,2)] by blast
  define sliced where "sliced = filter (\<lambda>r. date_prefix r \<in> set dates) records"
  define items' where "items' = AList.update ''timeline'' (JArr sliced) items"
  have s: "get_timeline_slice (JArr records) (Some dates) = Inr sliced"
    unfolding sliced_def by (rule get_timeline_slice_records[OF assms(5)])
  have r: "get_json_slice loads dumps timeline from_date to_date = Inr (dumps (JObj items'))"
    unfolding items'_def
    by (rule get_json_slice_unfold[where loads=loads and timeline=timeline, OF g assms(3,4) s])
  have "''timeline'' \<in> set (map fst items)"
    using assms(4) by (metis map_of_eq_None_iff option.distinct(1) set_map)
  then have k: "map fst items' = map fst items"
    unfolding items'_def by (simp add: AList.update_keys)
  have o: "\<forall>k. k \<noteq> ''timeline'' \<longrightarrow> map_of items' k = map_of items k"
    unfolding items'_def by (simp add: AList.update_conv')
  have t: "map_of items' ''timeline'' = Some (JArr sliced)"
    unfolding items'_def by (simp add: AList.update_conv')
  have "subseq sliced records" unfolding sliced_def by simp
  then show ?thesis using r k o t by blast
qed

theorem get_json_slice_frame_witness:
  "strptime ''2021-01-01'' = Inr \<lparr>year = 2021, month = 1, day = 1\<rparr>
   \<and> strptime ''2021-01-03'' = Inr \<lparr>year = 2021, month = 1, day = 3\<rparr>
   \<and> ''category'' \<noteq> ''timeline''
   \<and> (\<exists>items'. get_json_slice Inr (\<lambda>j. j)
        (JObj [(''category'', JStr ''sitewait''),
               (''timeline'',
                JArr [JObj [(''count'', JInt 1), (''timestamp'', JStr ''2021-01-01T00:00:00Z'')],
                      JObj [(''count'', JInt 5), (''timestamp'', JStr ''2021-01-09T00:00:00Z'')]]),
               (''total'', JInt 6)]
           :: unit json)
        ''2021-01-01'' ''2021-01-03''
      = Inr (JObj items')
      \<and> map fst items' = [''category'', ''timeline'', ''total'']
      \<and> map_of items' ''category'' = Some (JStr ''sitewait'')
      \<and> map_of items' ''total'' = Some (JInt 6))"
proof -
  let ?recs = "[JObj [(''count'', JInt 1), (''timestamp'', JStr ''2021-01-01T00:00:00Z'')],
                JObj [(''count'', JInt 5), (''timestamp'', JStr ''2021-01-09T00:00:00Z'')]]
               :: unit json list"
  let ?items = "[(''category'', JStr ''sitewait''), (''timeline'', JArr ?recs), (''total'', JInt 6)]"
  let ?env = "JObj ?items"
  let ?d1 = "\<lparr>year = 2021, month = 1, day = 1\<rparr>"
  let ?dn = "\<lparr>year = 2021, month = 1, day = 3\<rparr>"
  have a: "strptime ''2021-01-01'' = Inr ?d1" by code_simp
  have b: "strptime ''2021-01-03'' = Inr ?dn" by code_simp
  have l: "(Inr :: unit json \<Rightarrow> error + unit json) ?env = Inr (JObj ?items)" by simp
  have m: "map_of ?items ''timeline'' = Some (JArr ?recs)" by simp
  have w: "list_all is_record ?recs" by simp
  have n: "''category'' \<noteq> ''timeline''" "''total'' \<noteq> ''timeline''" by simp_all
  from get_json_slice_frame[
      where loads="Inr :: unit json \<Rightarrow> error + unit json" and timeline="?env"
        and dumps="\<lambda>j. j", OF a b l m w]
  obtain items' where r: "get_json_slice Inr (\<lambda>j. j) ?env ''2021-01-01'' ''2021-01-03'' = Inr (JObj items')"
    and k: "map fst items' = map fst ?items"
    and o: "\<forall>k. k \<noteq> ''timeline'' \<longrightarrow> map_of items' k = map_of ?items k"
    by blast
  have k': "map fst items' = [''category'', ''timeline'', ''total'']" using k by simp
  have c: "map_of items' ''category'' = Some (JStr ''sitewait'')" using o n by simp
  have t: "map_of items' ''total'' = Some (JInt 6)" using o n by simp
  have "\<exists>items'. get_json_slice Inr (\<lambda>j. j) ?env ''2021-01-01'' ''2021-01-03'' = Inr (JObj items')
      \<and> map fst items' = [''category'', ''timeline'', ''total'']
      \<and> map_of items' ''category'' = Some (JStr ''sitewait'')
      \<and> map_of items' ''total'' = Some (JInt 6)"
    by (rule exI[where x=items']) (simp only: r k' c t simp_thms)
  with a b n(1) show ?thesis by (simp only: simp_thms)
qed

section \<open>The claims about \<open>normalize_date_range\<close>\<close>

lemma normalize_date_range_next:
  assumes a: "strptime from_date = Inr d1" and b: "strptime to_date = Inr d2"
    and m: "d2 \<noteq> \<lparr>year = 9999, month = 12, day = 31\<rparr>"
  defines "next_day \<equiv> fromordinal (toordinal d2 + 1)"
  shows "normalize_date_range from_date to_date = Inr (Some (strftime d1, strftime next_day))"
    and "valid_datetime next_day" and "toordinal next_day = toordinal d2 + 1"
    and "dt_less d2 next_day"
proof -
  have v: "valid_datetime d2" using b strptime_valid by blast
  have r: "1 \<le> toordinal d2 + 1" "toordinal d2 + 1 \<le> MAXORDINAL"
    using toordinal_range(1)[OF v] toordinal_below_max[OF v m] by simp_all
  show "normalize_date_range from_date to_date = Inr (Some (strftime d1, strftime next_day))"
    unfolding normalize_date_range_def a b add_days_def next_day_def Let_def using r by simp
  show nv: "valid_datetime next_day" and no: "toordinal next_day = toordinal d2 + 1"
    unfolding next_day_def using fromordinal_valid[OF r] by simp_all
  show "dt_less d2 next_day"
    using toordinal_less_iff[OF v nv] no by simp
qed

lemma normalize_date_range_canonical:
  assumes a: "strptime from_date = Inr d1" and b: "strptime to_date = Inr d2"
    and m: "d2 \<noteq> \<lparr>year = 9999, month = 12, day = 31\<rparr>"
    and y1: "1000 \<le> year d1" and y2: "1000 \<le> year d2"
  defines "next_day \<equiv> fromordinal (toordinal d2 + 1)"
  shows "normalize_date_range from_date to_date
           = Inr (Some (canonical_form d1, canonical_form next_day))"
    and "valid_datetime next_day" and "toordinal next_day = toordinal d2 + 1"
    and "dt_less d2 next_day"
    and "strptime (canonical_form d1) = Inr d1"
    and "strptime (canonical_form next_day) = Inr next_day"
proof -
  note n = normalize_date_range_next[OF a b m, folded next_day_def]
  have v: "valid_datetime d1" using a strptime_valid by blast
  have "\<not> dt_less next_day d2" using n(4) unfolding dt_less_def by auto
  then have "1000 \<le> year next_day" using y2 unfolding dt_less_def by auto
  then show "normalize_date_range from_date to_date
           = Inr (Some (canonical_form d1, canonical_form next_day))"
    using n(1) strftime_canonical_form[OF v y1] strftime_canonical_form[OF n(2)] by simp
  show "valid_datetime next_day" "toordinal next_day = toordinal d2 + 1" "dt_less d2 next_day"
    using n by simp_all
  show "strptime (canonical_form d1) = Inr d1" using strptime_canonical_form[OF v] .
  show "strptime (canonical_form next_day) = Inr next_day" using strptime_canonical_form[OF n(2)] .
qed

text \<open>
  C4, the claim as stated fails twice. Both strings are valid dates, and the
  addition of one day to 9999-12-31 raises \<open>OverflowError\<close> outside of the
  \<^verbatim>\<open>try\<close>. And a year before 1000 is printed without its zeros: 0001-01-01
  comes back as \<^verbatim>\<open>1-01-01\<close>, which is not its canonical form.
\<close>

theorem normalize_date_range_last_day_counterexample:
  "strptime ''2021-01-01'' = Inr \<lparr>year = 2021, month = 1, day = 1\<rparr>
   \<and> strptime ''9999-12-31'' = Inr \<lparr>year = 9999, month = 12, day = 31\<rparr>
   \<and> normalize_date_range ''2021-01-01'' ''9999-12-31'' = Inl OverflowError
   \<and> strptime ''0001-01-01'' = Inr \<lparr>year = 1, month = 1, day = 1\<rparr>
   \<and> strptime ''9999-12-30'' = Inr \<lparr>year = 9999, month = 12, day = 30\<rparr>
   \<and> canonical_form \<lparr>year = 1, month = 1, day = 1\<rparr> = ''0001-01-01''
   \<and> normalize_date_range ''0001-01-01'' ''9999-12-30'' = Inr (Some (''1-01-01'', ''9999-12-31''))"
  by code_simp

text \<open>
  C4, amended. For two date strings that parse to days of the year 1000 or
  later, \<open>to_date\<close> to a day other than 9999-12-31, \<open>normalize_date_range\<close>
  returns the pair of the canonical form of \<open>from_date\<close> and of the canonical
  form of the day that follows \<open>to_date\<close>; the two are never swapped, whatever
  their order.
\<close>

theorem normalize_date_range_adds_one_day:
  assumes "strptime from_date = Inr d1" and "strptime to_date = Inr d2"
    and "d2 \<noteq> \<lparr>year = 9999, month = 12, day = 31\<rparr>"
    and "1000 \<le> year d1" and "1000 \<le> year d2"
  shows "\<exists>next_day. normalize_date_range from_date to_date
               = Inr (Some (canonical_form d1, canonical_form next_day))
           \<and> valid_datetime next_day \<and> toordinal next_day = toordinal d2 + 1
           \<and> dt_less d2 next_day
           \<and> strptime (canonical_form d1) = Inr d1
           \<and> strptime (canonical_form next_day) = Inr next_day"
  using normalize_date_range_canonical[OF assms] by blast

theorem normalize_date_range_adds_one_day_witness:
  "strptime ''2021-12-31'' = Inr \<lparr>year = 2021, month = 12, day = 31\<rparr>
   \<and> strptime ''2020-12-31'' = Inr \<lparr>year = 2020, month = 12, day = 31\<rparr>
   \<and> \<lparr>year = 2020, month = 12, day = 31\<rparr> \<noteq> \<lparr>year = 9999, month = 12, day = (31::int)\<rparr>
   \<and> 1000 \<le> year \<lparr>year = 2021, month = 12, day = 31\<rparr>
   \<and> 1000 \<le> year \<lparr>year = 2020, month = 12, day = 31\<rparr>
   \<and> dt_less \<lparr>year = 2020, month = 12, day = 31\<rparr> \<lparr>year = 2021, month = 12, day = 31\<rparr>
   \<and> (\<exists>next_day. normalize_date_range ''2021-12-31'' ''2020-12-31''
           = Inr (Some (''2021-12-31'', canonical_form next_day))
         \<and> toordinal next_day = toordinal \<lparr>year = 2020, month = 12, day = 31\<rparr> + 1)"
proof -
  have a: "strptime ''2021-12-31'' = Inr \<lparr>year = 2021, month = 12, day = 31\<rparr>" by code_simp
  have b: "strptime ''2020-12-31'' = Inr \<lparr>year = 2020, month = 12, day = 31\<rparr>" by code_simp
  have c: "\<lparr>year = 2020, month = 12, day = 31\<rparr> \<noteq> \<lparr>year = 9999, month = 12, day = (31::int)\<rparr>"
    by simp
  have y1: "1000 \<le> year \<lparr>year = 2021, month = 12, day = (31::int)\<rparr>" by simp
  have y2: "1000 \<le> year \<lparr>year = 2020, month = 12, day = (31::int)\<rparr>" by simp
  have d: "dt_less \<lparr>year = 2020, month = 12, day = 31\<rparr> \<lparr>year = 2021, month = 12, day = 31\<rparr>"
    by code_simp
  have e: "canonical_form \<lparr>year = 2021, month = 12, day = 31\<rparr> = ''2021-12-31''" by code_simp
  from normalize_date_range_adds_one_day[OF a b c y1 y2] show ?thesis
    unfolding e using a b c y1 y2 d by blast
qed

text \<open>
  C10, the claim as stated fails twice. 9999-12-31 is a valid date string in
  canonical form, and \<open>normalize_date_range\<close> raises \<open>OverflowError\<close> on it. And
  0999-12-31 is a valid date string in canonical form that comes back as
  \<^verbatim>\<open>999-12-31\<close>, not as itself.
\<close>

theorem normalize_date_range_same_last_day_counterexample:
  "strptime ''9999-12-31'' = Inr \<lparr>year = 9999, month = 12, day = 31\<rparr>
   \<and> canonical_form \<lparr>year = 9999, month = 12, day = 31\<rparr> = ''9999-12-31''
   \<and> normalize_date_range ''9999-12-31'' ''9999-12-31'' = Inl OverflowError
   \<and> strptime ''0999-12-31'' = Inr \<lparr>year = 999, month = 12, day = 31\<rparr>
   \<and> canonical_form \<lparr>year = 999, month = 12, day = 31\<rparr> = ''0999-12-31''
   \<and> normalize_date_range ''0999-12-31'' ''0999-12-31'' = Inr (Some (''999-12-31'', ''1000-01-01''))"
  by code_simp

text \<open>
  C10, amended. For a date string \<open>d\<close> that parses to a day of the year 1000 or
  later other than 9999-12-31, \<open>normalize_date_range d d\<close> returns a pair, as for
  distinct dates: the canonical form of \<open>d\<close>, which is \<open>d\<close> itself when \<open>d\<close> is
  in canonical form, and the canonical form of the day that follows, which
  differs from the first component. \<open>get_days d d\<close> returns the single \<open>d\<close> on
  the same input.
\<close>

theorem normalize_date_range_same_day:
  assumes "strptime d = Inr dt" and "dt \<noteq> \<lparr>year = 9999, month = 12, day = 31\<rparr>"
    and "1000 \<le> year dt"
  shows "\<exists>next_day. normalize_date_range d d = Inr (Some (canonical_form dt, canonical_form next_day))
           \<and> valid_datetime next_day \<and> toordinal next_day = toordinal dt + 1
           \<and> canonical_form next_day \<noteq> canonical_form dt
           \<and> strptime (canonical_form dt) = Inr dt
           \<and> strptime (canonical_form next_day) = Inr next_day
           \<and> (canonical_form dt = d \<longrightarrow>
                 normalize_date_range d d = Inr (Some (d, canonical_form next_day)))
           \<and> get_days d d = Inr (Some [d])"
proof -
  define next_day where "next_day = fromordinal (toordinal dt + 1)"
  note n = normalize_date_range_canonical[OF assms(1) assms(1) assms(2) assms(3) assms(3),
      folded next_day_def]
  have v: "valid_datetime dt" using assms(1) strptime_valid by blast
  have "next_day \<noteq> dt" using n(3) by auto
  then have "canonical_form next_day \<noteq> canonical_form dt"
    using canonical_form_inj[OF n(2) v] by blast
  moreover have "get_days d d = Inr (Some [d])" using get_days_same[OF assms(1) assms(1)] .
  ultimately show ?thesis using n by auto
qed

theorem normalize_date_range_same_day_witness:
  "strptime ''2021-01-05'' = Inr \<lparr>year = 2021, month = 1, day = 5\<rparr>
   \<and> \<lparr>year = 2021, month = 1, day = 5\<rparr> \<noteq> \<lparr>year = 9999, month = 12, day = (31::int)\<rparr>
   \<and> 1000 \<le> year \<lparr>year = 2021, month = 1, day = 5\<rparr>
   \<and> canonical_form \<lparr>year = 2021, month = 1, day = 5\<rparr> = ''2021-01-05''
   \<and> (\<exists>next_day. normalize_date_range ''2021-01-05'' ''2021-01-05''
           = Inr (Some (''2021-01-05'', canonical_form next_day))
         \<and> toordinal next_day = toordinal \<lparr>year = 2021, month = 1, day = 5\<rparr> + 1)"
proof -
  have a: "strptime ''2021-01-05'' = Inr \<lparr>year = 2021, month = 1, day = 5\<rparr>" by code_simp
  have c: "\<lparr>year = 2021, month = 1, day = 5\<rparr> \<noteq> \<lparr>year = 9999, month = 12, day = (31::int)\<rparr>"
    by simp
  have y: "1000 \<le> year \<lparr>year = 2021, month = 1, day = (5::int)\<rparr>" by simp
  have e: "canonical_form \<lparr>year = 2021, month = 1, day = 5\<rparr> = ''2021-01-05''" by code_simp
  from normalize_date_range_same_day[OF a c y] show ?thesis
    unfolding e using a c y e by blast
qed

section \<open>The round trip of \<open>get_json_slice\<close>\<close>

lemma within_in_get_days:
  assumes a: "strptime D1 = Inr d1" and b: "strptime Dn = Inr dn"
    and c: "(d1 \<noteq> dn \<and> 1000 \<le> year (earlier_of d1 dn)) \<or> (d1 = dn \<and> canonical_form d1 = D1)"
    and w: "within (earlier_of d1 dn) (later_of d1 dn) p"
    and g: "get_days D1 Dn = Inr (Some dates)"
  shows "p \<in> set dates"
proof -
  have v: "valid_datetime d1" "valid_datetime dn" using a b strptime_valid by blast+
  obtain d where d: "strptime p = Inr d" and p: "canonical_form d = p"
    and lo: "\<not> dt_less d (earlier_of d1 dn)" and hi: "\<not> dt_less (later_of d1 dn) d"
    using w unfolding within_def by (auto split: sum.splits)
  have vd: "valid_datetime d" using d strptime_valid by blast
  have r: "toordinal (earlier_of d1 dn) \<le> toordinal d" "toordinal d \<le> toordinal (later_of d1 dn)"
    using lo hi toordinal_less_iff[OF vd later_earlier_valid(2)[OF v]]
      toordinal_less_iff[OF later_earlier_valid(1)[OF v] vd] by auto
  show ?thesis
  proof (cases "d1 = dn")
    case True
    then have "later_of d1 dn = d1" "earlier_of d1 dn = d1"
      unfolding later_of_def earlier_of_def by simp_all
    then have "toordinal d = toordinal d1" using r by simp
    then have "d = d1" using toordinal_inj[OF vd v(1)] by simp
    moreover have "canonical_form d1 = D1" using c True by simp
    moreover have "dates = [D1]" using g get_days_same[OF a] b True by simp
    ultimately show ?thesis using p by simp
  next
    case False
    note s = get_days_span[OF a b False]
    have "1000 \<le> year (earlier_of d1 dn)" using c False by simp
    then have "1000 \<le> year d" using year_not_before[OF lo] by simp
    then have sp: "strftime d = p" using strftime_canonical_form[OF vd] p by simp
    have "toordinal d \<in> set (rev [toordinal (earlier_of d1 dn)..toordinal (later_of d1 dn)])"
      using r by simp
    then have "fromordinal (toordinal d)
        \<in> set (map fromordinal (rev [toordinal (earlier_of d1 dn)..toordinal (later_of d1 dn)]))"
      by (metis (no_types) image_eqI list.set_map)
    then have "strftime d
        \<in> set (map strftime (map fromordinal (rev [toordinal (earlier_of d1 dn)..toordinal (later_of d1 dn)])))"
      unfolding fromordinal_toordinal[OF vd] by (metis (no_types) image_eqI list.set_map)
    moreover have "dates = map strftime (map fromordinal (rev [toordinal (earlier_of d1 dn)..toordinal (later_of d1 dn)]))"
      using g unfolding s(1) by simp
    ultimately show ?thesis unfolding sp by blast
  qed
qed

text \<open>
  C5, the claim as stated fails twice. 2021-1-1 is a valid date string, the
  range from it to itself is the day 2021-01-01, and the only record of the
  timeline is of that day; \<open>get_days\<close> returns the string as it was given, the
  date prefix of the record is not equal to it, and the timeline comes back
  empty. And from 0999-01-01 to 0999-01-03 \<open>get_days\<close> prints the days without
  the zero of the year, so the record of 0999-01-02 is dropped as well.
\<close>

theorem get_json_slice_round_trip_counterexample:
  "strptime ''2021-1-1'' = Inr \<lparr>year = 2021, month = 1, day = 1\<rparr>
   \<and> within \<lparr>year = 2021, month = 1, day = 1\<rparr> \<lparr>year = 2021, month = 1, day = 1\<rparr>
        (date_prefix (JObj [(''count'', JInt 1), (''timestamp'', JStr ''2021-01-01T00:00:00Z'')]
           :: unit json))
   \<and> get_json_slice Inr (\<lambda>j. j)
        (JObj [(''timeline'',
                JArr [JObj [(''count'', JInt 1), (''timestamp'', JStr ''2021-01-01T00:00:00Z'')]])]
           :: unit json)
        ''2021-1-1'' ''2021-1-1''
      = Inr (JObj [(''timeline'', JArr [])])
   \<and> strptime ''0999-01-01'' = Inr \<lparr>year = 999, month = 1, day = 1\<rparr>
   \<and> strptime ''0999-01-03'' = Inr \<lparr>year = 999, month = 1, day = 3\<rparr>
   \<and> within \<lparr>year = 999, month = 1, day = 1\<rparr> \<lparr>year = 999, month = 1, day = 3\<rparr>
        (date_prefix (JObj [(''count'', JInt 1), (''timestamp'', JStr ''0999-01-02T00:00:00Z'')]
           :: unit json))
   \<and> get_days ''0999-01-01'' ''0999-01-03'' = Inr (Some [''999-01-03'', ''999-01-02'', ''999-01-01''])
   \<and> get_json_slice Inr (\<lambda>j. j)
        (JObj [(''timeline'',
                JArr [JObj [(''count'', JInt 1), (''timestamp'', JStr ''0999-01-02T00:00:00Z'')]])]
           :: unit json)
        ''0999-01-01'' ''0999-01-03''
      = Inr (JObj [(''timeline'', JArr [])])"
  by code_simp

text \<open>
  C5, amended. Let \<open>D1\<close> and \<open>Dn\<close> be valid date strings that denote distinct
  days of the year 1000 or later, or the same day with \<open>D1\<close> in canonical form.
  When every record of the timeline has a date prefix in canonical form whose
  day is in the range of \<open>D1\<close> and \<open>Dn\<close>, \<open>get_json_slice\<close> with \<open>from_date = D1\<close>
  and \<open>to_date = Dn\<close> encodes the envelope it decoded, the timeline unchanged in
  order and content.
\<close>

theorem get_json_slice_round_trip:
  assumes "strptime D1 = Inr d1" and "strptime Dn = Inr dn"
    and "(d1 \<noteq> dn \<and> 1000 \<le> year (earlier_of d1 dn)) \<or> (d1 = dn \<and> canonical_form d1 = D1)"
    and "loads timeline = Inr (JObj items)"
    and "map_of items ''timeline'' = Some (JArr records)"
    and "list_all (\<lambda>r. is_record r \<and> within (earlier_of d1 dn) (later_of d1 dn) (date_prefix r)) records"
  shows "get_json_slice loads dumps timeline D1 Dn = Inr (dumps (JObj items))"
proof -
  obtain dates where g: "get_days D1 Dn = Inr (Some dates)"
    using get_days_returns[OF assms(1,2)] by blast
  have rec: "list_all is_record records" using assms(6) unfolding list_all_iff by blast
  have "\<And>r. r \<in> set records \<Longrightarrow> date_prefix r \<in> set dates"
    using within_in_get_days[OF assms(1,2,3) _ g] assms(6) unfolding list_all_iff by blast
  then have "filter (\<lambda>r. date_prefix r \<in> set dates) records = records"
    by (simp add: filter_id_conv)
  then have s: "get_timeline_slice (JArr records) (Some dates) = Inr records"
    using get_timeline_slice_records[OF rec] by simp
  show ?thesis
    unfolding get_json_slice_unfold[where loads=loads and timeline=timeline, OF g assms(4,5) s]
      AList.update_triv[OF assms(5)] ..
qed

theorem get_json_slice_round_trip_witness:
  "strptime ''2021-01-01'' = Inr \<lparr>year = 2021, month = 1, day = 1\<rparr>
   \<and> strptime ''2021-01-03'' = Inr \<lparr>year = 2021, month = 1, day = 3\<rparr>
   \<and> \<lparr>year = 2021, month = 1, day = 1\<rparr> \<noteq> \<lparr>year = 2021, month = 1, day = (3::int)\<rparr>
   \<and> 1000 \<le> year (earlier_of \<lparr>year = 2021, month = 1, day = 1\<rparr> \<lparr>year = 2021, month = 1, day = 3\<rparr>)
   \<and> get_json_slice Inr (\<lambda>j. j)
        (JObj [(''timeline'',
                JArr [JObj [(''count'', JInt 1), (''timestamp'', JStr ''2021-01-01T00:00:00Z'')],
                      JObj [(''count'', JInt 5), (''timestamp'', JStr ''2021-01-03T00:00:00Z'')]])]
           :: unit json)
        ''2021-01-01'' ''2021-01-03''
      = Inr (JObj [(''timeline'',
                JArr [JObj [(''count'', JInt 1), (''timestamp'', JStr ''2021-01-01T00:00:00Z'')],
                      JObj [(''count'', JInt 5), (''timestamp'', JStr ''2021-01-03T00:00:00Z'')]])])"
proof -
  let ?recs = "[JObj [(''count'', JInt 1), (''timestamp'', JStr ''2021-01-01T00:00:00Z'')],
                JObj [(''count'', JInt 5), (''timestamp'', JStr ''2021-01-03T00:00:00Z'')]]
               :: unit json list"
  let ?env = "JObj [(''timeline'', JArr ?recs)]"
  let ?d1 = "\<lparr>year = 2021, month = 1, day = 1\<rparr>"
  let ?dn = "\<lparr>year = 2021, month = 1, day = 3\<rparr>"
  have a: "strptime ''2021-01-01'' = Inr ?d1" by code_simp
  have b: "strptime ''2021-01-03'' = Inr ?dn" by code_simp
  have n: "?d1 \<noteq> ?dn" by simp
  have y: "1000 \<le> year (earlier_of ?d1 ?dn)" by code_simp
  have c: "(?d1 \<noteq> ?dn \<and> 1000 \<le> year (earlier_of ?d1 ?dn))
      \<or> (?d1 = ?dn \<and> canonical_form ?d1 = ''2021-01-01'')"
    using n y by blast
  have l: "(Inr :: unit json \<Rightarrow> error + unit json) ?env = Inr (JObj [(''timeline'', JArr ?recs)])"
    by simp
  have m: "map_of [(''timeline'', JArr ?recs)] ''timeline'' = Some (JArr ?recs)" by simp
  have w: "list_all (\<lambda>r. is_record r \<and> within (earlier_of ?d1 ?dn) (later_of ?d1 ?dn) (date_prefix r)) ?recs"
    by code_simp
  from get_json_slice_round_trip[
      where loads="Inr :: unit json \<Rightarrow> error + unit json" and timeline="?env"
        and dumps="\<lambda>j. j", OF a b c l m w]
  show ?thesis using a b n y by simp
qed

end
